theory Spec2Isabelle
  imports Main
begin

section \<open>Go strings as byte lists\<close>

text \<open>
  A Go \<open>string\<close> is a sequence of bytes; \<open>len\<close>, slicing and \<open>strings.Index\<close> all count
  bytes. The model uses \<^typ>\<open>string\<close> (a list of 8-bit \<^typ>\<open>char\<close>), so every length and
  position below is a byte length and a byte position, as in the source.
\<close>

subsection \<open>The functions of package \<open>strings\<close> that \<open>server.go\<close> calls\<close>

text \<open>\<open>strings.HasPrefix(s, prefix)\<close>.\<close>

definition HasPrefix :: "string \<Rightarrow> string \<Rightarrow> bool" where
  "HasPrefix s p = (take (length p) s = p)"

text \<open>\<open>strings.TrimPrefix(s, prefix)\<close>: \<open>s\<close> without the prefix, or \<open>s\<close> itself.\<close>

definition TrimPrefix :: "string \<Rightarrow> string \<Rightarrow> string" where
  "TrimPrefix s p = (if HasPrefix s p then drop (length p) s else s)"

text \<open>
  \<open>strings.Index(s, substr)\<close>: the byte position of the first occurrence, \<open>None\<close> for
  Go's \<open>-1\<close>.
\<close>

fun Index :: "string \<Rightarrow> string \<Rightarrow> nat option" where
  "Index [] sub = (if sub = [] then Some 0 else None)"
| "Index (c # cs) sub =
     (if HasPrefix (c # cs) sub then Some 0 else map_option Suc (Index cs sub))"

text \<open>\<open>strings.LastIndex(s, substr)\<close>: the position of the last occurrence.\<close>

fun LastIndex :: "string \<Rightarrow> string \<Rightarrow> nat option" where
  "LastIndex [] sub = (if sub = [] then Some 0 else None)"
| "LastIndex (c # cs) sub =
     (case LastIndex cs sub of
        Some i \<Rightarrow> Some (Suc i)
      | None \<Rightarrow> if HasPrefix (c # cs) sub then Some 0 else None)"

text \<open>\<open>strings.Split(s, "\n")\<close>: the pieces between newlines; never empty.\<close>

fun SplitLines :: "string \<Rightarrow> string list" where
  "SplitLines [] = [[]]"
| "SplitLines (c # cs) =
     (if c = CHR 0x0A then [] # SplitLines cs
      else (case SplitLines cs of
              l # ls \<Rightarrow> (c # l) # ls
            | [] \<Rightarrow> [[c]]))"

text \<open>\<open>strings.Join(elems, sep)\<close>.\<close>

fun Join :: "string list \<Rightarrow> string \<Rightarrow> string" where
  "Join [] sep = []"
| "Join [x] sep = x"
| "Join (x # y # ys) sep = x @ sep @ Join (y # ys) sep"

subsection \<open>\<open>strings.TrimSpace\<close>\<close>

text \<open>
  \<open>strings.TrimSpace\<close> removes leading and trailing white space as \<open>unicode.IsSpace\<close>
  defines it, reading the string as UTF-8: the ASCII characters tab, newline, vertical
  tab, form feed, carriage return and space, and the code points U+0085, U+00A0,
  U+1680, U+2000 to U+200A, U+2028, U+2029, U+202F, U+205F and U+3000. A white-space
  rune stands at the start (end) of a string exactly when the string starts (ends)
  with its UTF-8 encoding; an invalid byte decodes to U+FFFD, which is not white space.
\<close>

definition spaceEncodings :: "string list" where
  "spaceEncodings =
     [[CHR 0x09], [CHR 0x0A], [CHR 0x0B], [CHR 0x0C], [CHR 0x0D], [CHR 0x20],
      [CHR 0xC2, CHR 0x85], [CHR 0xC2, CHR 0xA0],
      [CHR 0xE1, CHR 0x9A, CHR 0x80],
      [CHR 0xE2, CHR 0x80, CHR 0x80], [CHR 0xE2, CHR 0x80, CHR 0x81],
      [CHR 0xE2, CHR 0x80, CHR 0x82], [CHR 0xE2, CHR 0x80, CHR 0x83],
      [CHR 0xE2, CHR 0x80, CHR 0x84], [CHR 0xE2, CHR 0x80, CHR 0x85],
      [CHR 0xE2, CHR 0x80, CHR 0x86], [CHR 0xE2, CHR 0x80, CHR 0x87],
      [CHR 0xE2, CHR 0x80, CHR 0x88], [CHR 0xE2, CHR 0x80, CHR 0x89],
      [CHR 0xE2, CHR 0x80, CHR 0x8A],
      [CHR 0xE2, CHR 0x80, CHR 0xA8], [CHR 0xE2, CHR 0x80, CHR 0xA9],
      [CHR 0xE2, CHR 0x80, CHR 0xAF],
      [CHR 0xE2, CHR 0x81, CHR 0x9F],
      [CHR 0xE3, CHR 0x80, CHR 0x80]]"

text \<open>The width in bytes of the white-space rune at the start of \<open>s\<close>, 0 if there is none.\<close>

definition leadingSpace :: "string \<Rightarrow> nat" where
  "leadingSpace s =
     (case find (\<lambda>e. HasPrefix s e) spaceEncodings of
        None \<Rightarrow> 0
      | Some e \<Rightarrow> length e)"

lemma leadingSpace_le: "leadingSpace s \<le> length s"
proof (cases "find (\<lambda>e. HasPrefix s e) spaceEncodings")
  case None
  then show ?thesis by (simp add: leadingSpace_def)
next
  case (Some e)
  then have "HasPrefix s e" by (auto simp: find_Some_iff)
  then have "length e \<le> length s"
    by (metis HasPrefix_def length_take min.cobounded1)
  with Some show ?thesis by (simp add: leadingSpace_def)
qed

function TrimLeftSpace :: "string \<Rightarrow> string" where
  "TrimLeftSpace s =
     (if leadingSpace s = 0 then s else TrimLeftSpace (drop (leadingSpace s) s))"
  by pat_completeness auto
termination
proof (relation "measure length")
  show "wf (measure length)" by simp
next
  fix s :: string
  assume "leadingSpace s \<noteq> 0"
  moreover have "leadingSpace s \<le> length s" by (rule leadingSpace_le)
  ultimately show "(drop (leadingSpace s) s, s) \<in> measure length" by simp
qed

declare TrimLeftSpace.simps [simp del]

text \<open>\<open>strings.HasSuffix(s, suffix)\<close>.\<close>

definition HasSuffix :: "string \<Rightarrow> string \<Rightarrow> bool" where
  "HasSuffix s p = (length p \<le> length s \<and> drop (length s - length p) s = p)"

text \<open>The width in bytes of the white-space rune at the end of \<open>s\<close>, 0 if there is none.\<close>

definition trailingSpace :: "string \<Rightarrow> nat" where
  "trailingSpace s =
     (case find (\<lambda>e. HasSuffix s e) spaceEncodings of
        None \<Rightarrow> 0
      | Some e \<Rightarrow> length e)"

lemma trailingSpace_le: "trailingSpace s \<le> length s"
proof (cases "find (\<lambda>e. HasSuffix s e) spaceEncodings")
  case None
  then show ?thesis by (simp add: trailingSpace_def)
next
  case (Some e)
  then have "HasSuffix s e" by (auto simp: find_Some_iff)
  then have "length e \<le> length s" by (simp add: HasSuffix_def)
  with Some show ?thesis by (simp add: trailingSpace_def)
qed

function TrimRightSpace :: "string \<Rightarrow> string" where
  "TrimRightSpace s =
     (if trailingSpace s = 0 then s
      else TrimRightSpace (take (length s - trailingSpace s) s))"
  by pat_completeness auto
termination
proof (relation "measure length")
  show "wf (measure length)" by simp
next
  fix s :: string
  assume "trailingSpace s \<noteq> 0"
  moreover have "trailingSpace s \<le> length s" by (rule trailingSpace_le)
  ultimately show "(take (length s - trailingSpace s) s, s) \<in> measure length" by simp
qed

declare TrimRightSpace.simps [simp del]

text \<open>\<open>strings.TrimSpace(s)\<close>: the leading runs go first, then the trailing ones.\<close>

definition TrimSpace :: "string \<Rightarrow> string" where
  "TrimSpace s = TrimRightSpace (TrimLeftSpace s)"

section \<open>\<open>excerpt\<close>\<close>

text \<open>
  The only way \<open>excerpt\<close> can fail is the run-time panic of a slice expression whose
  bound is out of range.
\<close>

datatype panic = SliceBoundsOutOfRange

text \<open>
  \<open>excerpt(content string, maxLen int) string\<close>. The slice \<open>content[:maxLen]\<close> is reached
  only when \<open>len(content) > maxLen\<close>, so it panics exactly when \<open>maxLen\<close> is negative;
  \<open>truncated[:idx]\<close> has \<open>idx\<close> within \<open>truncated\<close>.
\<close>

definition excerpt :: "string \<Rightarrow> int \<Rightarrow> panic + string" where
  "excerpt content maxLen =
     (let content = TrimSpace content in
      if int (length content) \<le> maxLen then Inr content
      else if maxLen < 0 then Inl SliceBoundsOutOfRange
      else
        (let truncated = take (nat maxLen) content;
             truncated = (case LastIndex truncated '' '' of
                            Some idx \<Rightarrow> if idx > 0 then take idx truncated else truncated
                          | None \<Rightarrow> truncated)
         in Inr (truncated @ ''...'')))"

section \<open>\<open>renderContent\<close>\<close>

subsection \<open>\<open>template.HTMLEscapeString\<close>\<close>

text \<open>
  \<open>html/template.HTMLEscapeString\<close> hands its argument to \<open>text/template\<close>, which
  replaces the NUL byte by the UTF-8 encoding of U+FFFD, the double quote by \<open>&#34;\<close>,
  the apostrophe by \<open>&#39;\<close>, and \<open>&\<close>, \<open><\<close>, \<open>>\<close> by \<open>&amp;\<close>, \<open>&lt;\<close>, \<open>&gt;\<close>; every
  other byte is copied.
\<close>

definition escapeByte :: "char \<Rightarrow> string" where
  "escapeByte c =
     (if c = CHR 0x00 then [CHR 0xEF, CHR 0xBF, CHR 0xBD]
      else if c = CHR 0x22 then ''&#34;''
      else if c = CHR 0x27 then ''&#39;''
      else if c = CHR ''&'' then ''&amp;''
      else if c = CHR ''<'' then ''&lt;''
      else if c = CHR ''>'' then ''&gt;''
      else [c])"

definition HTMLEscapeString :: "string \<Rightarrow> string" where
  "HTMLEscapeString s = concat (map escapeByte s)"

subsection \<open>The line loop\<close>

text \<open>
  The local variables of \<open>renderContent\<close> that the loop over the lines updates: the
  string builder \<open>sb\<close>, the flags \<open>inCodeBlock\<close> and \<open>inList\<close>, and the slice
  \<open>paragraph\<close> (\<open>paragraphBuf\<close> here).
\<close>

record render_state =
  sb :: string
  inCodeBlock :: bool
  inList :: bool
  paragraphBuf :: "string list"

definition WriteString :: "string \<Rightarrow> render_state \<Rightarrow> render_state" where
  "WriteString x st = st\<lparr>sb := sb st @ x\<rparr>"

text \<open>The closure \<open>flushParagraph\<close>.\<close>

definition flushParagraph :: "render_state \<Rightarrow> render_state" where
  "flushParagraph st =
     (if length (paragraphBuf st) > 0 then
        (let joined = Join (paragraphBuf st) '' '';
             st = WriteString ''<p>'' st;
             st = WriteString (HTMLEscapeString joined) st;
             st = WriteString ''</p>\<newline>'' st
         in st\<lparr>paragraphBuf := []\<rparr>)
      else st)"

text \<open>
  The statement \<open>if inList { sb.WriteString("</ul>\n"); inList = false }\<close>, which the
  source repeats in the code-block, empty-line and header branches.
\<close>

definition closeList :: "render_state \<Rightarrow> render_state" where
  "closeList st =
     (if inList st then (WriteString ''</ul>\<newline>'' st)\<lparr>inList := False\<rparr> else st)"

text \<open>
  One iteration of \<open>for _, line := range lines\<close>. Each \<open>continue\<close> of the source is a
  branch that returns the state; the last branch is the append to \<open>paragraph\<close>.
\<close>

definition renderLine :: "render_state \<Rightarrow> string \<Rightarrow> render_state" where
  "renderLine st0 line =
     (let trimmed = TrimSpace line;
          st1 = (if HasPrefix line ''    '' \<and> \<not> inCodeBlock st0 then
                   (WriteString ''<pre><code>'' (closeList (flushParagraph st0)))
                     \<lparr>inCodeBlock := True\<rparr>
                 else st0)
      in
      if inCodeBlock st1 \<and> HasPrefix line ''    '' then
        WriteString ''\<newline>''
          (WriteString (HTMLEscapeString (TrimPrefix line ''    '')) st1)
      else
        (let st2 = (if inCodeBlock st1 then
                      (WriteString ''</code></pre>\<newline>'' st1)\<lparr>inCodeBlock := False\<rparr>
                    else st1)
         in
         if trimmed = [] then closeList (flushParagraph st2)
         else if HasPrefix trimmed ''## '' then
           WriteString ''</h2>\<newline>''
             (WriteString (HTMLEscapeString (TrimPrefix trimmed ''## ''))
               (WriteString ''<h2>'' (closeList (flushParagraph st2))))
         else if HasPrefix trimmed ''# '' then
           WriteString ''</h2>\<newline>''
             (WriteString (HTMLEscapeString (TrimPrefix trimmed ''# ''))
               (WriteString ''<h2>'' (closeList (flushParagraph st2))))
         else if HasPrefix trimmed ''- '' then
           (let st3 = flushParagraph st2;
                st4 = (if \<not> inList st3 then
                         (WriteString ''<ul>\<newline>'' st3)\<lparr>inList := True\<rparr>
                       else st3)
            in WriteString ''</li>\<newline>''
                 (WriteString (HTMLEscapeString (TrimPrefix trimmed ''- ''))
                   (WriteString ''<li>'' st4)))
         else st2\<lparr>paragraphBuf := paragraphBuf st2 @ [trimmed]\<rparr>))"

definition initialState :: render_state where
  "initialState = \<lparr>sb = [], inCodeBlock = False, inList = False, paragraphBuf = []\<rparr>"

text \<open>
  \<open>renderContent\<close> up to \<open>result := sb.String()\<close>: the loop over the lines, then the three
  closing statements in the order of the source (code block, list, paragraph).
\<close>

definition renderBlocks :: "string \<Rightarrow> string" where
  "renderBlocks content =
     (let st = foldl renderLine initialState (SplitLines content);
          st = (if inCodeBlock st then WriteString ''</code></pre>\<newline>'' st else st);
          st = (if inList st then WriteString ''</ul>\<newline>'' st else st);
          st = flushParagraph st
      in sb st)"

subsection \<open>\<open>processInlineFormatting\<close>\<close>

text \<open>
  The body of the first loop, \<open>// Bold: **text**\<close>. \<open>None\<close> is either \<open>break\<close>; otherwise
  the result is the new value of \<open>s\<close>, built from the slices \<open>s[:start]\<close>,
  \<open>s[start+2:end]\<close> and \<open>s[end+2:]\<close>, where \<open>end\<close> has already been shifted by
  \<open>start + 2\<close>.
\<close>

definition boldStep :: "string \<Rightarrow> string option" where
  "boldStep s =
     (case Index s ''**'' of
        None \<Rightarrow> None
      | Some start \<Rightarrow>
          (case Index (drop (start + 2) s) ''**'' of
             None \<Rightarrow> None
           | Some e \<Rightarrow>
               (let end = e + (start + 2) in
                Some (take start s @ ''<strong>'' @ drop (start + 2) (take end s)
                      @ ''</strong>'' @ drop (end + 2) s))))"

text \<open>The body of the second loop, \<open>// Inline code: `text`\<close>.\<close>

definition codeStep :: "string \<Rightarrow> string option" where
  "codeStep s =
     (case Index s ''`'' of
        None \<Rightarrow> None
      | Some start \<Rightarrow>
          (case Index (drop (start + 1) s) ''`'' of
             None \<Rightarrow> None
           | Some e \<Rightarrow>
               (let end = e + (start + 1) in
                Some (take start s @ ''<code>'' @ drop (start + 1) (take end s)
                      @ ''</code>'' @ drop (end + 1) s))))"

text \<open>
  The two \<open>for { ... }\<close> loops have no bound in the source, so each is a partial function
  whose value \<open>None\<close> stands for a loop that never leaves; a \<open>break\<close> leaves with the
  current string.
\<close>

partial_function (option) boldLoop :: "string \<Rightarrow> string option" where
  "boldLoop s = (case boldStep s of None \<Rightarrow> Some s | Some s' \<Rightarrow> boldLoop s')"

partial_function (option) codeLoop :: "string \<Rightarrow> string option" where
  "codeLoop s = (case codeStep s of None \<Rightarrow> Some s | Some s' \<Rightarrow> codeLoop s')"

declare boldLoop.simps [code]
declare codeLoop.simps [code]

definition processInlineFormatting :: "string \<Rightarrow> string option" where
  "processInlineFormatting s =
     (case boldLoop s of None \<Rightarrow> None | Some s \<Rightarrow> codeLoop s)"

definition renderContent :: "string \<Rightarrow> string option" where
  "renderContent content = processInlineFormatting (renderBlocks content)"

section \<open>Named parts of the loop body\<close>

text \<open>
  Three statements of the loop body, named for its case analysis: leaving a code block
  at a line without the four-space prefix, entering one at a line with it, and opening
  the list at a list item.
\<close>

definition leaveCode :: "render_state \<Rightarrow> render_state" where
  "leaveCode st =
     (if inCodeBlock st then (WriteString ''</code></pre>\<newline>'' st)\<lparr>inCodeBlock := False\<rparr>
      else st)"

definition enterCode :: "render_state \<Rightarrow> render_state" where
  "enterCode st =
     (if inCodeBlock st then st
      else (WriteString ''<pre><code>'' (closeList (flushParagraph st)))\<lparr>inCodeBlock := True\<rparr>)"

definition openList :: "render_state \<Rightarrow> render_state" where
  "openList st =
     (if inList st then st else (WriteString ''<ul>\<newline>'' st)\<lparr>inList := True\<rparr>)"

section \<open>Notions used to state the properties\<close>

subsection \<open>Delimiter occurrences\<close>

text \<open>
  The number of \<open>**\<close> delimiters in a string, counted from the left without overlap
  (what \<open>strings.Count(s, "**")\<close> returns): in \<open>***\<close> there is one delimiter, followed
  by a lone asterisk.
\<close>

fun countBold :: "string \<Rightarrow> nat" where
  "countBold (a # b # cs) =
     (if a = CHR ''*'' \<and> b = CHR ''*'' then Suc (countBold cs) else countBold (b # cs))"
| "countBold [a] = 0"
| "countBold [] = 0"

text \<open>The number of backtick delimiters.\<close>

definition countTick :: "string \<Rightarrow> nat" where
  "countTick s = length (filter (\<lambda>c. c = CHR ''`'') s)"

text \<open>
  A string is free of bold delimiters when it contains no \<open>**\<close> and does not end in an
  asterisk, so that no delimiter can start inside it whatever follows.
\<close>

fun boldFree :: "string \<Rightarrow> bool" where
  "boldFree (a # b # cs) = (\<not> (a = CHR ''*'' \<and> b = CHR ''*'') \<and> boldFree (b # cs))"
| "boldFree [a] = (a \<noteq> CHR ''*'')"
| "boldFree [] = True"

definition tickFree :: "string \<Rightarrow> bool" where
  "tickFree s = (CHR ''`'' \<notin> set s)"

subsection \<open>Escaped HTML\<close>

text \<open>
  The tags that \<open>renderContent\<close> and \<open>processInlineFormatting\<close> write, and the character
  references that \<open>HTMLEscapeString\<close> writes for the four characters \<open><\<close>, \<open>>\<close>, \<open>&\<close> and
  the double quote (and for the apostrophe).
\<close>

definition structuralTags :: "string list" where
  "structuralTags =
     [''<p>'', ''</p>'', ''<h2>'', ''</h2>'', ''<ul>'', ''</ul>'', ''<li>'', ''</li>'',
      ''<pre>'', ''</pre>'', ''<code>'', ''</code>'', ''<strong>'', ''</strong>'']"

definition entities :: "string list" where
  "entities = [''&amp;'', ''&lt;'', ''&gt;'', ''&#34;'', ''&#39;'']"

definition special :: "char \<Rightarrow> bool" where
  "special c = (c = CHR ''<'' \<or> c = CHR ''>'' \<or> c = CHR ''&'' \<or> c = CHR 0x22)"

lemma token_nonempty: "t \<in> set (structuralTags @ entities) \<Longrightarrow> 0 < length t"
  by (auto simp: structuralTags_def entities_def)

text \<open>
  A string is safe when it can be read, from left to right, as a sequence of structural
  tags, character references and characters other than the four special ones: each
  \<open><\<close> and \<open>>\<close> of a safe string belongs to a structural tag, each \<open>&\<close> starts a
  character reference, and the double quote does not occur.
\<close>

function safeHtml :: "string \<Rightarrow> bool" where
  "safeHtml [] = True"
| "safeHtml (c # cs) =
     (if special c then
        list_ex (\<lambda>t. HasPrefix (c # cs) t \<and> safeHtml (drop (length t) (c # cs)))
          (structuralTags @ entities)
      else safeHtml cs)"
  by pat_completeness auto
termination
proof (relation "measure length")
  show "wf (measure length)" by simp
next
  fix c :: char and cs :: string and t :: string
  assume "t \<in> set (structuralTags @ entities)"
  then have "0 < length t" by (rule token_nonempty)
  then show "(drop (length t) (c # cs), c # cs) \<in> measure length" by simp
next
  fix c :: char and cs :: string
  show "(cs, c # cs) \<in> measure length" by simp
qed

declare safeHtml.simps(2) [simp del]

text \<open>
  Escaped text is what the escaping may write for literal text: it holds no \<open><\<close>, no \<open>>\<close>
  and no double quote at all, and each \<open>&\<close> in it starts a character reference.
\<close>

fun escapedText :: "string \<Rightarrow> bool" where
  "escapedText [] = True"
| "escapedText (c # cs) =
     ((if c = CHR ''&'' then list_ex (HasPrefix (c # cs)) entities
       else c \<noteq> CHR ''<'' \<and> c \<noteq> CHR ''>'' \<and> c \<noteq> CHR 0x22) \<and>
      escapedText cs)"

text \<open>
  \<open>tagsInserted s h\<close>: the string \<open>h\<close> is \<open>s\<close> with some pairs of delimiters exchanged for the
  tags of the inline pass, and nothing else changed.
\<close>

inductive tagsInserted :: "string \<Rightarrow> string \<Rightarrow> bool" where
  same: "tagsInserted s s"
| bold: "tagsInserted (p @ ''<strong>'' @ m @ ''</strong>'' @ r) h \<Longrightarrow>
           tagsInserted (p @ ''**'' @ m @ ''**'' @ r) h"
| code: "tagsInserted (p @ ''<code>'' @ m @ ''</code>'' @ r) h \<Longrightarrow>
           tagsInserted (p @ ''`'' @ m @ ''`'' @ r) h"

subsection \<open>Occurrence of a substring\<close>

text \<open>\<open>Contains s substr\<close> is what \<open>strings.Contains\<close> computes; \<open>occursIn\<close> states it by a split.\<close>

definition Contains :: "string \<Rightarrow> string \<Rightarrow> bool" where
  "Contains s substr = (Index s substr \<noteq> None)"

definition occursIn :: "string \<Rightarrow> string \<Rightarrow> bool" where
  "occursIn w s = (\<exists>x y. s = x @ w @ y)"

subsection \<open>Plain endings\<close>

text \<open>A string ends plainly when its last character is not an asterisk.\<close>

definition endsPlain :: "string \<Rightarrow> bool" where
  "endsPlain x = (x = [] \<or> last x \<noteq> CHR ''*'')"

subsection \<open>Characters of UTF-8 text\<close>

text \<open>
  A Go string is a sequence of bytes. The characters of well-formed UTF-8 text are counted
  by its bytes that are not continuation bytes (\<open>0x80\<close> to \<open>0xBF\<close>).
\<close>

definition runeCount :: "string \<Rightarrow> nat" where
  "runeCount s =
     length (filter (\<lambda>c. \<not> (128 \<le> (of_char c :: nat) \<and> (of_char c :: nat) < 192)) s)"

subsection \<open>The result of each loop as a function\<close>

text \<open>
  Both loops return on every string (proved below), so their results can be named. The
  value at \<open>None\<close> is never taken.
\<close>

definition boldFmt :: "string \<Rightarrow> string" where
  "boldFmt s = (case boldLoop s of Some r \<Rightarrow> r | None \<Rightarrow> s)"

definition codeFmt :: "string \<Rightarrow> string" where
  "codeFmt s = (case codeLoop s of Some r \<Rightarrow> r | None \<Rightarrow> s)"

definition formatSegment :: "string \<Rightarrow> string" where
  "formatSegment s = (case processInlineFormatting s of Some r \<Rightarrow> r | None \<Rightarrow> s)"

section \<open>The block output as a list of chunks\<close>

text \<open>
  The specification describes the output block by block. To compare it with the code, the
  line loop of \<open>renderContent\<close> is run a second time with a list of chunks in place of the
  string builder: a chunk is a piece of markup, a text segment (the text of a paragraph, a
  header or a list item, not yet escaped) between its opening and closing tag, or the
  content of one code line. The lines of a paragraph are joined before they are written,
  so a paragraph is one segment.
\<close>

datatype chunk = Markup string | Text string string string | Code string

text \<open>What the code writes for a chunk: text is escaped, nothing is formatted.\<close>

fun rawChunk :: "chunk \<Rightarrow> string" where
  "rawChunk (Markup t) = t"
| "rawChunk (Text op seg cl) = op @ HTMLEscapeString seg @ cl"
| "rawChunk (Code line) = HTMLEscapeString line @ ''\<newline>''"


record block_state =
  chunks :: "chunk list"
  codeOpen :: bool
  listOpen :: bool
  pending :: "string list"

definition emit :: "chunk \<Rightarrow> block_state \<Rightarrow> block_state" where
  "emit c bs = bs\<lparr>chunks := chunks bs @ [c]\<rparr>"

definition flushBlock :: "block_state \<Rightarrow> block_state" where
  "flushBlock bs =
     (if pending bs \<noteq> [] then
        (emit (Text ''<p>'' (Join (pending bs) '' '') ''</p>\<newline>'') bs)\<lparr>pending := []\<rparr>
      else bs)"

definition closeListBlock :: "block_state \<Rightarrow> block_state" where
  "closeListBlock bs =
     (if listOpen bs then (emit (Markup ''</ul>\<newline>'') bs)\<lparr>listOpen := False\<rparr> else bs)"

definition openListBlock :: "block_state \<Rightarrow> block_state" where
  "openListBlock bs =
     (if listOpen bs then bs else (emit (Markup ''<ul>\<newline>'') bs)\<lparr>listOpen := True\<rparr>)"

definition leaveCodeBlock :: "block_state \<Rightarrow> block_state" where
  "leaveCodeBlock bs =
     (if codeOpen bs then (emit (Markup ''</code></pre>\<newline>'') bs)\<lparr>codeOpen := False\<rparr>
      else bs)"

definition enterCodeBlock :: "block_state \<Rightarrow> block_state" where
  "enterCodeBlock bs =
     (if codeOpen bs then bs
      else (emit (Markup ''<pre><code>'') (closeListBlock (flushBlock bs)))\<lparr>codeOpen := True\<rparr>)"

definition blockLine :: "block_state \<Rightarrow> string \<Rightarrow> block_state" where
  "blockLine bs line =
     (if HasPrefix line ''    '' then emit (Code (drop 4 line)) (enterCodeBlock bs)
      else
        (let trimmed = TrimSpace line; b2 = leaveCodeBlock bs in
         if trimmed = [] then closeListBlock (flushBlock b2)
         else if HasPrefix trimmed ''## '' then
           emit (Text ''<h2>'' (drop 3 trimmed) ''</h2>\<newline>'') (closeListBlock (flushBlock b2))
         else if HasPrefix trimmed ''# '' then
           emit (Text ''<h2>'' (drop 2 trimmed) ''</h2>\<newline>'') (closeListBlock (flushBlock b2))
         else if HasPrefix trimmed ''- '' then
           emit (Text ''<li>'' (drop 2 trimmed) ''</li>\<newline>'') (openListBlock (flushBlock b2))
         else b2\<lparr>pending := pending b2 @ [trimmed]\<rparr>))"

definition initialBlocks :: block_state where
  "initialBlocks = \<lparr>chunks = [], codeOpen = False, listOpen = False, pending = []\<rparr>"

definition chunksOf :: "string \<Rightarrow> chunk list" where
  "chunksOf content =
     (let bs = foldl blockLine initialBlocks (SplitLines content);
          bs = (if codeOpen bs then emit (Markup ''</code></pre>\<newline>'') bs else bs);
          bs = (if listOpen bs then emit (Markup ''</ul>\<newline>'') bs else bs);
          bs = flushBlock bs
      in chunks bs)"


text \<open>
  The state of the code and the state of the chunk run correspond when the string builder
  holds the chunks as the code writes them and the other three fields agree.
\<close>

definition rel :: "render_state \<Rightarrow> block_state \<Rightarrow> bool" where
  "rel st bs = (sb st = concat (map rawChunk (chunks bs)) \<and> inCodeBlock st = codeOpen bs \<and>
                inList st = listOpen bs \<and> paragraphBuf st = pending bs)"

text \<open>
  The chunks that the renderer writes: markup is one of four constant strings, and a text
  segment stands between \<open><p>\<close>, \<open><h2>\<close> or \<open><li>\<close> and the matching closing tag.
\<close>

definition rendererChunk :: "chunk \<Rightarrow> bool" where
  "rendererChunk c =
     (case c of
        Markup t \<Rightarrow> t \<in> set [''<pre><code>'', ''</code></pre>\<newline>'', ''<ul>\<newline>'', ''</ul>\<newline>'']
      | Text op seg cl \<Rightarrow>
          (op, cl) \<in> set [(''<p>'', ''</p>\<newline>''), (''<h2>'', ''</h2>\<newline>''),
                          (''<li>'', ''</li>\<newline>'')]
      | Code line \<Rightarrow> True)"

definition wellFormed :: "block_state \<Rightarrow> bool" where
  "wellFormed bs = list_all rendererChunk (chunks bs)"

subsection \<open>Delimiters that pair within their block\<close>





section \<open>Properties of \<open>excerpt\<close>\<close>

subsection \<open>\<open>strings.LastIndex\<close> with a one-byte needle\<close>

lemma LastIndex_single_None: "LastIndex s [c] = None \<longleftrightarrow> c \<notin> set s"
  by (induction s) (auto simp: HasPrefix_def split: option.splits)

lemma LastIndex_single_Some:
  "LastIndex s [c] = Some i \<Longrightarrow>
     i < length s \<and> s ! i = c \<and> (\<forall>j. i < j \<and> j < length s \<longrightarrow> s ! j \<noteq> c)"
proof (induction s arbitrary: i)
  case Nil
  then show ?case by simp
next
  case (Cons a s)
  show ?case
  proof (cases "LastIndex s [c]")
    case None
    then have notin: "c \<notin> set s" by (simp add: LastIndex_single_None)
    from None Cons.prems have i0: "i = 0" and ac: "a = c"
      by (auto simp: HasPrefix_def split: if_splits)
    have "\<forall>j. 0 < j \<and> j < length (a # s) \<longrightarrow> (a # s) ! j \<noteq> c"
    proof (intro allI impI)
      fix j assume j: "0 < j \<and> j < length (a # s)"
      then obtain k where k: "j = Suc k" by (cases j) auto
      with j have "k < length s" by simp
      then have "s ! k \<in> set s" by simp
      with notin k show "(a # s) ! j \<noteq> c" by auto
    qed
    with i0 ac show ?thesis by simp
  next
    case (Some k)
    with Cons.prems have ik: "i = Suc k" by simp
    from Cons.IH [OF Some] have k: "k < length s" "s ! k = c"
      and mx: "\<forall>j. k < j \<and> j < length s \<longrightarrow> s ! j \<noteq> c" by auto
    have "\<forall>j. Suc k < j \<and> j < length (a # s) \<longrightarrow> (a # s) ! j \<noteq> c"
    proof (intro allI impI)
      fix j assume j: "Suc k < j \<and> j < length (a # s)"
      then obtain m where m: "j = Suc m" by (cases j) auto
      with j mx show "(a # s) ! j \<noteq> c" by simp
    qed
    with ik k show ?thesis by simp
  qed
qed

lemma LastIndex_single_eq:
  assumes "i < length s" and "s ! i = c"
    and "\<forall>j. i < j \<and> j < length s \<longrightarrow> s ! j \<noteq> c"
  shows "LastIndex s [c] = Some i"
proof -
  from assms(1,2) have "c \<in> set s" by auto
  then obtain k where k: "LastIndex s [c] = Some k"
    using LastIndex_single_None [of s c] by (cases "LastIndex s [c]") auto
  from LastIndex_single_Some [OF k] have kk: "k < length s" "s ! k = c"
    and mx: "\<forall>j. k < j \<and> j < length s \<longrightarrow> s ! j \<noteq> c" by auto
  have "\<not> k < i" using mx assms(1,2) by auto
  moreover have "\<not> i < k" using assms(3) kk by auto
  ultimately show ?thesis using k by simp
qed

subsection \<open>The three outcomes of \<open>excerpt\<close>\<close>

lemma excerpt_short:
  "int (length (TrimSpace content)) \<le> maxLen \<Longrightarrow> excerpt content maxLen = Inr (TrimSpace content)"
  by (simp add: excerpt_def)

lemma excerpt_word:
  assumes "0 \<le> maxLen" and "maxLen < int (length (TrimSpace content))"
    and "0 < i" and "i < length (take (nat maxLen) (TrimSpace content))"
    and "take (nat maxLen) (TrimSpace content) ! i = CHR '' ''"
    and "\<forall>j. i < j \<and> j < length (take (nat maxLen) (TrimSpace content))
           \<longrightarrow> take (nat maxLen) (TrimSpace content) ! j \<noteq> CHR '' ''"
  shows "excerpt content maxLen = Inr (take i (take (nat maxLen) (TrimSpace content)) @ ''...'')"
proof -
  have "LastIndex (take (nat maxLen) (TrimSpace content)) '' '' = Some i"
    using assms(4,5,6) by (rule LastIndex_single_eq)
  then show ?thesis using assms(1,2,3) by (simp add: excerpt_def Let_def)
qed

lemma excerpt_hard:
  assumes "0 \<le> maxLen" and "maxLen < int (length (TrimSpace content))"
    and "\<forall>i. 0 < i \<and> i < length (take (nat maxLen) (TrimSpace content))
           \<longrightarrow> take (nat maxLen) (TrimSpace content) ! i \<noteq> CHR '' ''"
  shows "excerpt content maxLen = Inr (take (nat maxLen) (TrimSpace content) @ ''...'')"
proof (cases "LastIndex (take (nat maxLen) (TrimSpace content)) '' ''")
  case None
  then show ?thesis using assms(1,2) by (simp add: excerpt_def Let_def)
next
  case (Some k)
  from LastIndex_single_Some [OF Some] assms(3) have "k = 0" by auto
  with Some show ?thesis using assms(1,2) by (simp add: excerpt_def Let_def)
qed

text \<open>
  Claim C8, as the code has it. Lengths and positions are counted in bytes of the UTF-8
  text, as \<open>len\<close> and the slice \<open>content[:maxLen]\<close> count them, not in characters. For a
  non-negative \<open>maxLen\<close>: when the trimmed content is at most \<open>maxLen\<close> bytes long, \<open>excerpt\<close>
  returns it unchanged, without ellipsis. Otherwise it takes the first \<open>maxLen\<close> bytes;
  when that slice has a last space at a position \<open>i > 0\<close> the result is the slice cut at
  \<open>i\<close>, and when it has no space at a position \<open>> 0\<close> the result is the whole slice; in
  both cases \<open>...\<close> is appended. The two examples of the specification evaluate as stated.
\<close>

theorem excerpt_truncates:
  "(0 \<le> maxLen \<longrightarrow>
   (let t = TrimSpace content; sl = take (nat maxLen) t in
      (int (length t) \<le> maxLen \<longrightarrow> excerpt content maxLen = Inr t) \<and>
      (maxLen < int (length t) \<longrightarrow>
         (\<forall>i. 0 < i \<and> i < length sl \<and> sl ! i = CHR '' '' \<and>
               (\<forall>j. i < j \<and> j < length sl \<longrightarrow> sl ! j \<noteq> CHR '' '')
               \<longrightarrow> excerpt content maxLen = Inr (take i sl @ ''...'')) \<and>
         ((\<forall>i. 0 < i \<and> i < length sl \<longrightarrow> sl ! i \<noteq> CHR '' '')
               \<longrightarrow> excerpt content maxLen = Inr (sl @ ''...'')))))
   \<and> excerpt ''The quick brown fox jumps'' 10 = Inr ''The quick...''
   \<and> excerpt ''short'' 10 = Inr ''short''"
proof (intro conjI impI)
  assume m: "0 \<le> maxLen"
  show "let t = TrimSpace content; sl = take (nat maxLen) t in
      (int (length t) \<le> maxLen \<longrightarrow> excerpt content maxLen = Inr t) \<and>
      (maxLen < int (length t) \<longrightarrow>
         (\<forall>i. 0 < i \<and> i < length sl \<and> sl ! i = CHR '' '' \<and>
               (\<forall>j. i < j \<and> j < length sl \<longrightarrow> sl ! j \<noteq> CHR '' '')
               \<longrightarrow> excerpt content maxLen = Inr (take i sl @ ''...'')) \<and>
         ((\<forall>i. 0 < i \<and> i < length sl \<longrightarrow> sl ! i \<noteq> CHR '' '')
               \<longrightarrow> excerpt content maxLen = Inr (sl @ ''...'')))"
    unfolding Let_def
  proof (intro conjI impI allI)
    assume "int (length (TrimSpace content)) \<le> maxLen"
    then show "excerpt content maxLen = Inr (TrimSpace content)" by (rule excerpt_short)
  next
    fix i
    assume lt: "maxLen < int (length (TrimSpace content))"
      and i: "0 < i \<and> i < length (take (nat maxLen) (TrimSpace content)) \<and>
         take (nat maxLen) (TrimSpace content) ! i = CHR '' '' \<and>
         (\<forall>j. i < j \<and> j < length (take (nat maxLen) (TrimSpace content)) \<longrightarrow>
              take (nat maxLen) (TrimSpace content) ! j \<noteq> CHR '' '')"
    show "excerpt content maxLen = Inr (take i (take (nat maxLen) (TrimSpace content)) @ ''...'')"
      using m lt i by (intro excerpt_word) blast+
  next
    assume lt: "maxLen < int (length (TrimSpace content))"
      and no: "\<forall>i. 0 < i \<and> i < length (take (nat maxLen) (TrimSpace content)) \<longrightarrow>
        take (nat maxLen) (TrimSpace content) ! i \<noteq> CHR '' ''"
    show "excerpt content maxLen = Inr (take (nat maxLen) (TrimSpace content) @ ''...'')"
      using m lt no by (rule excerpt_hard)
  qed
next
  show "excerpt ''The quick brown fox jumps'' 10 = Inr ''The quick...''" by code_simp
next
  show "excerpt ''short'' 10 = Inr ''short''" by code_simp
qed


theorem excerpt_truncates_witness:
  "(0::int) \<le> 9 \<and> 9 < int (length (TrimSpace ''  one two three  '')) \<and>
   take (nat 9) (TrimSpace ''  one two three  '') ! 7 = CHR '' '' \<and>
   excerpt ''  one two three  '' 9 = Inr ''one two...''"
proof -
  let ?sl = "take (nat 9) (TrimSpace ''  one two three  '')"
  have sl: "?sl = ''one two t''" by code_simp
  have lt: "(9::int) < int (length (TrimSpace ''  one two three  ''))" by code_simp
  have j: "\<forall>j. 7 < j \<and> j < length ?sl \<longrightarrow> ?sl ! j \<noteq> CHR '' ''"
  proof (intro allI impI)
    fix j :: nat
    assume "7 < j \<and> j < length ?sl"
    then have "j = 8" unfolding sl by simp
    then show "?sl ! j \<noteq> CHR '' ''" unfolding sl by simp
  qed
  have p: "0 < (7::nat) \<and> 7 < length ?sl \<and> ?sl ! 7 = CHR '' ''"
    unfolding sl by simp
  have "(0::int) \<le> 9" by simp
  with excerpt_truncates [of 9 "''  one two three  ''"] lt
  have "\<forall>i. 0 < i \<and> i < length ?sl \<and> ?sl ! i = CHR '' '' \<and>
             (\<forall>j. i < j \<and> j < length ?sl \<longrightarrow> ?sl ! j \<noteq> CHR '' '')
             \<longrightarrow> excerpt ''  one two three  '' 9 = Inr (take i ?sl @ ''...'')"
    unfolding Let_def by blast
  with p j have "excerpt ''  one two three  '' 9 = Inr (take 7 ?sl @ ''...'')"
    by blast
  then have "excerpt ''  one two three  '' 9 = Inr ''one two...''"
    unfolding sl by simp
  with lt p show ?thesis by simp
qed

text \<open>
  Counted in characters the claim fails. The text \<open>h\<close>, \<open>e\<close> with acute accent, \<open>llo\<close> has five
  characters and six bytes: with \<open>maxLen = 5\<close> it is not returned unchanged but cut after
  its fifth byte. And the cut may fall inside a character: of \<open>ab\<close>, \<open>e\<close> with acute accent,
  \<open>cd\<close> with \<open>maxLen = 3\<close> the result keeps the first byte of the accented letter only.
\<close>

theorem excerpt_bytes_counterexample:
  "runeCount (TrimSpace [CHR ''h'', CHR 0xC3, CHR 0xA9, CHR ''l'', CHR ''l'', CHR ''o'']) = 5 \<and>
   excerpt [CHR ''h'', CHR 0xC3, CHR 0xA9, CHR ''l'', CHR ''l'', CHR ''o''] 5
     = Inr [CHR ''h'', CHR 0xC3, CHR 0xA9, CHR ''l'', CHR ''l'', CHR ''.'', CHR ''.'', CHR ''.''] \<and>
   excerpt [CHR ''a'', CHR ''b'', CHR 0xC3, CHR 0xA9, CHR ''c'', CHR ''d''] 3
     = Inr [CHR ''a'', CHR ''b'', CHR 0xC3, CHR ''.'', CHR ''.'', CHR ''.'']"
  by (intro conjI; code_simp)

text \<open>
  Claim C4, as the code has it. For every content and every non-negative \<open>maxLen\<close>, zero
  included, \<open>excerpt\<close> returns a string. For a negative \<open>maxLen\<close> the comparison
  \<open>len(content) <= maxLen\<close> is false for every content, and the slice \<open>content[:maxLen]\<close>
  panics.
\<close>

theorem excerpt_total:
  "(0 \<le> maxLen \<longrightarrow> (\<exists>r. excerpt content maxLen = Inr r)) \<and>
   (maxLen < 0 \<longrightarrow> excerpt content maxLen = Inl SliceBoundsOutOfRange)"
  by (auto simp: excerpt_def Let_def)

theorem excerpt_total_witness:
  "(0::int) \<le> 0 \<and> (\<exists>r. excerpt ''post body'' 0 = Inr r) \<and>
   (-1::int) < 0 \<and> excerpt ''post body'' (-1) = Inl SliceBoundsOutOfRange"
  using excerpt_total [of 0 "''post body''"] excerpt_total [of "-1" "''post body''"]
  by simp

text \<open>
  The claim as stated, with negative values of \<open>maxLen\<close> included, fails:
  \<open>excerpt("short", -1)\<close> panics and returns no string.
\<close>

theorem excerpt_negative_counterexample:
  "excerpt ''short'' (- 1) = Inl SliceBoundsOutOfRange"
  by (simp add: excerpt_def Let_def)

text \<open>
  Claim C10. For every content and every non-negative \<open>maxLen\<close>, \<open>excerpt\<close> returns a
  string of at most \<open>maxLen + 3\<close> bytes.
\<close>

theorem excerpt_length:
  assumes "0 \<le> maxLen"
  shows "\<exists>r. excerpt content maxLen = Inr r \<and> int (length r) \<le> maxLen + 3"
proof -
  define t where "t = TrimSpace content"
  show ?thesis
  proof (cases "int (length t) \<le> maxLen")
    case True
    then show ?thesis by (simp add: excerpt_def t_def [symmetric])
  next
    case False
    define sl where "sl = take (nat maxLen) t"
    have "length sl \<le> nat maxLen" by (simp add: sl_def)
    then show ?thesis using False assms
      by (auto simp: excerpt_def t_def [symmetric] sl_def [symmetric] Let_def split: option.splits)
  qed
qed


theorem excerpt_length_witness:
  "(0::int) \<le> 10 \<and>
   (\<exists>r. excerpt ''The quick brown fox jumps'' 10 = Inr r \<and> int (length r) \<le> 10 + 3)"
  using excerpt_length [of 10 "''The quick brown fox jumps''"] by simp


section \<open>The delimiter-pairing loops\<close>

subsection \<open>\<open>strings.Index\<close> with the needle \<open>**\<close>\<close>

lemma Index_bold_Cons2:
  "Index (a # b # cs) ''**'' =
     (if a = CHR ''*'' \<and> b = CHR ''*'' then Some 0 else map_option Suc (Index (b # cs) ''**''))"
  by (simp add: HasPrefix_def)

lemma Index_bold_single: "Index [a] ''**'' = None"
  by (simp add: HasPrefix_def)

lemma Index_bold_append:
  "boldFree x \<Longrightarrow> Index (x @ y) ''**'' = map_option (\<lambda>j. length x + j) (Index y ''**'')"
proof (induction x rule: boldFree.induct)
  case (1 a b cs)
  then have "Index (b # cs @ y) ''**'' = map_option (\<lambda>j. length (b # cs) + j) (Index y ''**'')"
    by simp
  with 1 show ?case
    by (auto simp add: Index_bold_Cons2 option.map_comp comp_def simp del: Index.simps(2))
next
  case (2 a)
  then show ?case
    by (cases y) (simp_all add: Index_bold_Cons2 Index_bold_single del: Index.simps(2))
next
  case 3
  then show ?case by (simp add: option.map_ident del: Index.simps(2))
qed

lemma Index_bold_Some:
  "Index s ''**'' = Some i \<Longrightarrow>
     s = take i s @ ''**'' @ drop (i + 2) s \<and> boldFree (take i s) \<and> i + 2 \<le> length s"
proof (induction s arbitrary: i rule: countBold.induct)
  case (1 a b cs)
  show ?case
  proof (cases "a = CHR ''*'' \<and> b = CHR ''*''")
    case True
    with 1 show ?thesis by (simp add: Index_bold_Cons2 del: Index.simps(2))
  next
    case False
    with "1.prems" obtain k where k: "Index (b # cs) ''**'' = Some k" and i: "i = Suc k"
      by (auto simp: Index_bold_Cons2 simp del: Index.simps(2))
    from "1.IH"(2) [OF False k]
    have ih: "b # cs = take k (b # cs) @ ''**'' @ drop (k + 2) (b # cs)"
      "boldFree (take k (b # cs))" "k + 2 \<le> length (b # cs)" by auto
    have "boldFree (a # take k (b # cs))"
    proof (cases k)
      case 0
      with ih(1) have "b = CHR ''*''" by simp
      with False 0 show ?thesis by simp
    next
      case (Suc m)
      with ih(2) False show ?thesis by simp
    qed
    moreover have "a # b # cs = take i (a # b # cs) @ ''**'' @ drop (i + 2) (a # b # cs)"
      using ih(1) i by simp
    ultimately show ?thesis using i ih(3) by simp
  qed
next
  case (2 a)
  then show ?case by (simp add: Index_bold_single del: Index.simps(2))
next
  case 3
  then show ?case by simp
qed

lemma Index_bold_None: "Index s ''**'' = None \<longleftrightarrow> countBold s = 0"
  by (induction s rule: countBold.induct)
     (simp_all add: Index_bold_Cons2 Index_bold_single del: Index.simps(2))

lemma countBold_append: "boldFree x \<Longrightarrow> countBold (x @ y) = countBold y"
proof (induction x rule: boldFree.induct)
  case (1 a b cs)
  then show ?case by auto
next
  case (2 a)
  then show ?case by (cases y) simp_all
next
  case 3
  then show ?case by simp
qed

lemma boldFree_append: "boldFree x \<Longrightarrow> boldFree y \<Longrightarrow> boldFree (x @ y)"
proof (induction x rule: boldFree.induct)
  case (1 a b cs)
  then show ?case by simp
next
  case (2 a)
  then show ?case by (cases y) simp_all
next
  case 3
  then show ?case by simp
qed

lemma boldFree_count: "boldFree x \<Longrightarrow> countBold x = 0"
  using countBold_append [of x "[]"] by simp

lemma boldFree_no_star: "CHR ''*'' \<notin> set x \<Longrightarrow> boldFree x"
  by (induction x rule: boldFree.induct) auto


lemma Index_bold_at: "boldFree p \<Longrightarrow> Index (p @ ''**'' @ r) ''**'' = Some (length p)"
  by (simp add: Index_bold_append HasPrefix_def)

subsection \<open>One iteration of the bold loop\<close>

lemma boldStep_eq:
  "Index s ''**'' = Some i \<Longrightarrow> Index (drop (i + 2) s) ''**'' = Some e \<Longrightarrow>
   boldStep s = Some (take i s @ ''<strong>'' @ drop (i + 2) (take (e + (i + 2)) s)
                      @ ''</strong>'' @ drop (e + (i + 2) + 2) s)"
  by (simp add: boldStep_def Let_def)

lemma slice_parts:
  assumes "length d = n"
  shows "take (length p) (p @ d @ t) = p"
    and "drop (length p + n) (p @ d @ t) = t"
    and "drop (length p + n) (take (length m + (length p + n)) (p @ d @ m @ u)) = m"
    and "drop (length m + (length p + n) + n) (p @ d @ m @ d @ r) = r"
  using assms by simp_all

lemma boldStep_intro:
  assumes "boldFree p" and "boldFree m"
  shows "boldStep (p @ ''**'' @ m @ ''**'' @ r) = Some (p @ ''<strong>'' @ m @ ''</strong>'' @ r)"
proof -
  define s where "s = p @ ''**'' @ m @ ''**'' @ r"
  have d: "length ''**'' = 2" by simp
  have 1: "Index s ''**'' = Some (length p)"
    unfolding s_def using assms(1) by (rule Index_bold_at)
  have 2: "drop (length p + 2) s = m @ ''**'' @ r"
    unfolding s_def by (rule slice_parts(2) [OF d])
  have 3: "Index (drop (length p + 2) s) ''**'' = Some (length m)"
    unfolding 2 using assms(2) by (rule Index_bold_at)
  have 4: "take (length p) s = p"
    unfolding s_def by (rule slice_parts(1) [OF d])
  have 5: "drop (length p + 2) (take (length m + (length p + 2)) s) = m"
    unfolding s_def by (rule slice_parts(3) [OF d])
  have 6: "drop (length m + (length p + 2) + 2) s = r"
    unfolding s_def by (rule slice_parts(4) [OF d])
  from boldStep_eq [OF 1 3] show ?thesis
    unfolding 4 5 6 unfolding s_def .
qed

lemma boldStep_Some:
  assumes "boldStep s = Some s'"
  shows "\<exists>p m r. s = p @ ''**'' @ m @ ''**'' @ r \<and> boldFree p \<and> boldFree m \<and>
           s' = p @ ''<strong>'' @ m @ ''</strong>'' @ r"
proof -
  from assms obtain i where i: "Index s ''**'' = Some i"
    by (auto simp: boldStep_def split: option.splits)
  with assms obtain e where e: "Index (drop (i + 2) s) ''**'' = Some e"
    by (auto simp: boldStep_def split: option.splits)
  define p where "p = take i s"
  define t where "t = drop (i + 2) s"
  define m where "m = take e t"
  define r where "r = drop (e + 2) t"
  from Index_bold_Some [OF i] have s: "s = p @ ''**'' @ t" and p: "boldFree p"
    unfolding p_def t_def by blast+
  from e have e': "Index t ''**'' = Some e" unfolding t_def .
  from Index_bold_Some [OF e'] have t: "t = m @ ''**'' @ r" and m: "boldFree m"
    unfolding m_def r_def by blast+
  have eq: "s = p @ ''**'' @ m @ ''**'' @ r" using s t by simp
  have "boldStep s = Some (p @ ''<strong>'' @ m @ ''</strong>'' @ r)"
    unfolding eq using p m by (rule boldStep_intro)
  with assms have "s' = p @ ''<strong>'' @ m @ ''</strong>'' @ r" by simp
  with eq p m show ?thesis by blast
qed

lemma boldStep_None: "boldStep s = None \<longleftrightarrow> countBold s < 2"
proof (cases "Index s ''**''")
  case None
  then have "countBold s = 0" by (simp add: Index_bold_None)
  with None show ?thesis by (simp add: boldStep_def)
next
  case (Some i)
  from Index_bold_Some [OF Some]
  have s: "s = take i s @ ''**'' @ drop (i + 2) s" and p: "boldFree (take i s)" by auto
  have "countBold s = countBold (take i s @ ''**'' @ drop (i + 2) s)" using s by simp
  also have "\<dots> = Suc (countBold (drop (i + 2) s))"
    using p by (simp add: countBold_append)
  finally have c: "countBold s = Suc (countBold (drop (i + 2) s))" .
  show ?thesis
  proof (cases "Index (drop (i + 2) s) ''**''")
    case None
    then have "countBold (drop (i + 2) s) = 0" by (simp add: Index_bold_None)
    with None Some c show ?thesis by (simp add: boldStep_def)
  next
    case (Some e)
    then have "countBold (drop (i + 2) s) \<noteq> 0"
      using Index_bold_None [of "drop (i + 2) s"] by simp
    with c Some \<open>Index s ''**'' = Some i\<close> show ?thesis
      by (simp add: boldStep_def Let_def)
  qed
qed

lemma boldFree_strong_open: "boldFree ''<strong>''" by simp
lemma boldFree_strong_close: "boldFree ''</strong>''" by simp

lemma boldStep_count:
  assumes "boldStep s = Some s'"
  shows "countBold s = countBold s' + 2"
proof -
  from boldStep_Some [OF assms] obtain p m r where
    s: "s = p @ ''**'' @ m @ ''**'' @ r" and p: "boldFree p" and m: "boldFree m"
    and s': "s' = p @ ''<strong>'' @ m @ ''</strong>'' @ r" by blast
  have "countBold s = Suc (Suc (countBold r))"
    unfolding s using p m by (simp add: countBold_append)
  moreover have "countBold s' = countBold r"
    unfolding s' using p m
    by (simp only: countBold_append boldFree_strong_open boldFree_strong_close)
  ultimately show ?thesis by simp
qed

lemma boldStep_append:
  assumes "boldFree a"
  shows "boldStep (a @ b) = map_option ((@) a) (boldStep b)"
proof (cases "boldStep b")
  case None
  then have "countBold (a @ b) < 2"
    using assms by (simp add: boldStep_None countBold_append)
  then have "boldStep (a @ b) = None" by (simp add: boldStep_None)
  with None show ?thesis by simp
next
  case (Some b')
  from boldStep_Some [OF Some] obtain p m r where
    b: "b = p @ ''**'' @ m @ ''**'' @ r" and p: "boldFree p" and m: "boldFree m"
    and b': "b' = p @ ''<strong>'' @ m @ ''</strong>'' @ r" by blast
  have "boldFree (a @ p)" using assms p by (rule boldFree_append)
  then have "boldStep ((a @ p) @ ''**'' @ m @ ''**'' @ r)
               = Some ((a @ p) @ ''<strong>'' @ m @ ''</strong>'' @ r)"
    using m by (rule boldStep_intro)
  with Some b b' show ?thesis by simp
qed

subsection \<open>The bold loop\<close>

lemma boldLoop_break: "boldStep s = None \<Longrightarrow> boldLoop s = Some s"
  by (subst boldLoop.simps) simp

lemma boldLoop_continue: "boldStep s = Some s' \<Longrightarrow> boldLoop s = boldLoop s'"
  by (subst boldLoop.simps) simp

lemma boldLoop_total: "\<exists>r. boldLoop s = Some r"
proof (induction "countBold s" arbitrary: s rule: less_induct)
  case less
  show ?case
  proof (cases "boldStep s")
    case None
    then show ?thesis by (simp add: boldLoop_break)
  next
    case (Some s')
    then have "countBold s' < countBold s" using boldStep_count [OF Some] by simp
    from less [OF this] obtain r where "boldLoop s' = Some r" by blast
    with Some show ?thesis by (simp add: boldLoop_continue)
  qed
qed



subsection \<open>\<open>strings.Index\<close> with the needle \<open>`\<close>, and the code loop\<close>

lemma Index_tick_Cons:
  "Index (a # cs) ''`'' = (if a = CHR ''`'' then Some 0 else map_option Suc (Index cs ''`''))"
  by (simp add: HasPrefix_def)

lemma Index_tick_append:
  "tickFree x \<Longrightarrow> Index (x @ y) ''`'' = map_option (\<lambda>j. length x + j) (Index y ''`'')"
proof (induction x)
  case Nil
  then show ?case by (simp add: option.map_ident)
next
  case (Cons a x)
  then show ?case
    by (auto simp add: tickFree_def Index_tick_Cons option.map_comp comp_def
             simp del: Index.simps(2))
qed

lemma Index_tick_Some:
  "Index s ''`'' = Some i \<Longrightarrow>
     s = take i s @ ''`'' @ drop (i + 1) s \<and> tickFree (take i s) \<and> i + 1 \<le> length s"
proof (induction s arbitrary: i)
  case Nil
  then show ?case by simp
next
  case (Cons a s)
  show ?case
  proof (cases "a = CHR ''`''")
    case True
    with Cons.prems show ?thesis
      by (simp add: Index_tick_Cons tickFree_def del: Index.simps(2))
  next
    case False
    with Cons.prems obtain k where k: "Index s ''`'' = Some k" and i: "i = Suc k"
      by (auto simp: Index_tick_Cons simp del: Index.simps(2))
    from Cons.IH [OF k] False i show ?thesis by (simp add: tickFree_def)
  qed
qed

lemma Index_tick_None: "Index s ''`'' = None \<longleftrightarrow> countTick s = 0"
  by (induction s) (simp_all add: Index_tick_Cons countTick_def del: Index.simps(2))

lemma countTick_append: "countTick (x @ y) = countTick x + countTick y"
  by (simp add: countTick_def)



lemma Index_tick_at: "tickFree p \<Longrightarrow> Index (p @ ''`'' @ r) ''`'' = Some (length p)"
  by (simp add: Index_tick_append HasPrefix_def)

lemma codeStep_eq:
  "Index s ''`'' = Some i \<Longrightarrow> Index (drop (i + 1) s) ''`'' = Some e \<Longrightarrow>
   codeStep s = Some (take i s @ ''<code>'' @ drop (i + 1) (take (e + (i + 1)) s)
                      @ ''</code>'' @ drop (e + (i + 1) + 1) s)"
  by (simp add: codeStep_def Let_def)

lemma codeStep_intro:
  assumes "tickFree p" and "tickFree m"
  shows "codeStep (p @ ''`'' @ m @ ''`'' @ r) = Some (p @ ''<code>'' @ m @ ''</code>'' @ r)"
proof -
  define s where "s = p @ ''`'' @ m @ ''`'' @ r"
  have d: "length ''`'' = 1" by simp
  have 1: "Index s ''`'' = Some (length p)"
    unfolding s_def using assms(1) by (rule Index_tick_at)
  have 2: "drop (length p + 1) s = m @ ''`'' @ r"
    unfolding s_def by (rule slice_parts(2) [OF d])
  have 3: "Index (drop (length p + 1) s) ''`'' = Some (length m)"
    unfolding 2 using assms(2) by (rule Index_tick_at)
  have 4: "take (length p) s = p"
    unfolding s_def by (rule slice_parts(1) [OF d])
  have 5: "drop (length p + 1) (take (length m + (length p + 1)) s) = m"
    unfolding s_def by (rule slice_parts(3) [OF d])
  have 6: "drop (length m + (length p + 1) + 1) s = r"
    unfolding s_def by (rule slice_parts(4) [OF d])
  from codeStep_eq [OF 1 3] show ?thesis
    unfolding 4 5 6 unfolding s_def .
qed

lemma codeStep_Some:
  assumes "codeStep s = Some s'"
  shows "\<exists>p m r. s = p @ ''`'' @ m @ ''`'' @ r \<and> tickFree p \<and> tickFree m \<and>
           s' = p @ ''<code>'' @ m @ ''</code>'' @ r"
proof -
  from assms obtain i where i: "Index s ''`'' = Some i"
    by (auto simp: codeStep_def split: option.splits)
  with assms obtain e where e: "Index (drop (i + 1) s) ''`'' = Some e"
    by (auto simp: codeStep_def split: option.splits)
  define p where "p = take i s"
  define t where "t = drop (i + 1) s"
  define m where "m = take e t"
  define r where "r = drop (e + 1) t"
  from Index_tick_Some [OF i] have s: "s = p @ ''`'' @ t" and p: "tickFree p"
    unfolding p_def t_def by blast+
  from e have e': "Index t ''`'' = Some e" unfolding t_def .
  from Index_tick_Some [OF e'] have t: "t = m @ ''`'' @ r" and m: "tickFree m"
    unfolding m_def r_def by blast+
  have eq: "s = p @ ''`'' @ m @ ''`'' @ r" using s t by simp
  have "codeStep s = Some (p @ ''<code>'' @ m @ ''</code>'' @ r)"
    unfolding eq using p m by (rule codeStep_intro)
  with assms have "s' = p @ ''<code>'' @ m @ ''</code>'' @ r" by simp
  with eq p m show ?thesis by blast
qed


lemma codeStep_count:
  assumes "codeStep s = Some s'"
  shows "countTick s = countTick s' + 2"
proof -
  from codeStep_Some [OF assms] obtain p m r where
    s: "s = p @ ''`'' @ m @ ''`'' @ r" and s': "s' = p @ ''<code>'' @ m @ ''</code>'' @ r"
    by blast
  show ?thesis unfolding s s' by (simp add: countTick_def)
qed


lemma codeLoop_break: "codeStep s = None \<Longrightarrow> codeLoop s = Some s"
  by (subst codeLoop.simps) simp

lemma codeLoop_continue: "codeStep s = Some s' \<Longrightarrow> codeLoop s = codeLoop s'"
  by (subst codeLoop.simps) simp

lemma codeLoop_total: "\<exists>r. codeLoop s = Some r"
proof (induction "countTick s" arbitrary: s rule: less_induct)
  case less
  show ?case
  proof (cases "codeStep s")
    case None
    then show ?thesis by (simp add: codeLoop_break)
  next
    case (Some s')
    then have "countTick s' < countTick s" using codeStep_count [OF Some] by simp
    from less [OF this] obtain r where "codeLoop s' = Some r" by blast
    with Some show ?thesis by (simp add: codeLoop_continue)
  qed
qed


subsection \<open>A string with an odd number of bold delimiters\<close>


subsection \<open>The loops on a concatenation\<close>

lemma countBold_add: "endsPlain x \<Longrightarrow> countBold (x @ y) = countBold x + countBold y"
proof (induction x rule: countBold.induct)
  case (1 a b cs)
  then show ?case by (auto simp: endsPlain_def split: if_splits)
next
  case (2 a)
  then show ?case by (cases y) (simp_all add: endsPlain_def)
next
  case 3
  then show ?case by simp
qed

lemma countBold_add_plain:
  "CHR ''*'' \<notin> set y \<Longrightarrow> countBold (x @ y) = countBold x"
proof (induction x rule: countBold.induct)
  case (1 a b cs)
  then show ?case by auto
next
  case (2 a)
  then show ?case using boldFree_count [OF boldFree_no_star, of y]
    by (cases y) auto
next
  case 3
  then show ?case using boldFree_count [OF boldFree_no_star, of y] by simp
qed

lemma boldFree_iff: "boldFree x \<longleftrightarrow> countBold x = 0 \<and> endsPlain x"
  by (induction x rule: boldFree.induct) (auto simp: endsPlain_def)

lemma endsPlain_append: "endsPlain (x @ y) = (if y = [] then endsPlain x else endsPlain y)"
  by (simp add: endsPlain_def)








subsection \<open>Strings without delimiter characters\<close>




subsection \<open>The code loop leaves the bold delimiters alone\<close>





subsection \<open>Escaping keeps the delimiter counts\<close>

lemma escapeByte_star: "escapeByte (CHR ''*'') = ''*''"
  by (simp add: escapeByte_def)

lemma escapeByte_no_star: "c \<noteq> CHR ''*'' \<Longrightarrow> CHR ''*'' \<notin> set (escapeByte c)"
  by (auto simp: escapeByte_def)

lemma escapeByte_nonempty: "escapeByte c \<noteq> []"
  by (simp add: escapeByte_def)

lemma countBold_skip: "CHR ''*'' \<notin> set u \<Longrightarrow> countBold (u @ y) = countBold y"
  by (simp add: countBold_append boldFree_no_star)

lemma countBold_star_then:
  assumes "CHR ''*'' \<notin> set u" and "u \<noteq> []"
  shows "countBold (CHR ''*'' # u @ y) = countBold y"
proof -
  from assms obtain c u' where u: "u = c # u'" and c: "c \<noteq> CHR ''*''" by (cases u) auto
  have "countBold (CHR ''*'' # c # u' @ y) = countBold (c # u' @ y)" using c by simp
  also have "\<dots> = countBold (u @ y)" by (simp add: u)
  also have "\<dots> = countBold y" using assms(1) by (rule countBold_skip)
  finally show ?thesis by (simp add: u)
qed

lemma HTMLEscapeString_Cons: "HTMLEscapeString (c # s) = escapeByte c @ HTMLEscapeString s"
  by (simp add: HTMLEscapeString_def)

lemma HTMLEscapeString_append:
  "HTMLEscapeString (x @ y) = HTMLEscapeString x @ HTMLEscapeString y"
  by (simp add: HTMLEscapeString_def)

lemma countBold_escape: "countBold (HTMLEscapeString t) = countBold t"
proof (induction t rule: countBold.induct)
  case (1 a b cs)
  show ?case
  proof (cases "a = CHR ''*''")
    case False
    then have "countBold (HTMLEscapeString (a # b # cs)) = countBold (HTMLEscapeString (b # cs))"
      by (simp add: HTMLEscapeString_Cons [of a] countBold_skip escapeByte_no_star)
    with False 1 show ?thesis by simp
  next
    case True
    show ?thesis
    proof (cases "b = CHR ''*''")
      case True
      with \<open>a = CHR ''*''\<close> 1 show ?thesis
        by (simp add: HTMLEscapeString_Cons escapeByte_star)
    next
      case False
      have "countBold (HTMLEscapeString (a # b # cs))
              = countBold (CHR ''*'' # escapeByte b @ HTMLEscapeString cs)"
        using True by (simp add: HTMLEscapeString_Cons escapeByte_star)
      also have "\<dots> = countBold (HTMLEscapeString cs)"
        using False by (intro countBold_star_then escapeByte_no_star escapeByte_nonempty)
      also have "\<dots> = countBold (escapeByte b @ HTMLEscapeString cs)"
        using False by (simp add: countBold_skip escapeByte_no_star)
      also have "\<dots> = countBold (HTMLEscapeString (b # cs))"
        by (simp add: HTMLEscapeString_Cons)
      also have "\<dots> = countBold (b # cs)" using 1(2) True False by simp
      finally show ?thesis using True False by simp
    qed
  qed
next
  case (2 a)
  show ?case
  proof (cases "a = CHR ''*''")
    case True
    then show ?thesis by (simp add: HTMLEscapeString_def escapeByte_star)
  next
    case False
    then have "countBold (escapeByte a @ []) = countBold []"
      by (intro countBold_skip escapeByte_no_star)
    then show ?thesis by (simp add: HTMLEscapeString_def)
  qed
next
  case 3
  show ?case by (simp add: HTMLEscapeString_def)
qed

lemma countTick_escapeByte: "countTick (escapeByte c) = (if c = CHR ''`'' then 1 else 0)"
  by (simp add: escapeByte_def countTick_def)

lemma countTick_escape: "countTick (HTMLEscapeString t) = countTick t"
proof (induction t)
  case Nil
  show ?case by (simp add: HTMLEscapeString_def)
next
  case (Cons c t)
  have "countTick (HTMLEscapeString (c # t)) = countTick (escapeByte c) + countTick (HTMLEscapeString t)"
    by (simp add: HTMLEscapeString_Cons countTick_append)
  with Cons show ?case by (simp add: countTick_escapeByte) (simp add: countTick_def)
qed

section \<open>The loops on a document made of blocks\<close>

subsection \<open>The results of the loops\<close>

lemma boldLoop_boldFmt: "boldLoop s = Some (boldFmt s)"
  using boldLoop_total [of s] by (auto simp: boldFmt_def)

lemma codeLoop_codeFmt: "codeLoop s = Some (codeFmt s)"
  using codeLoop_total [of s] by (auto simp: codeFmt_def)

lemma formatSegment_eq: "formatSegment s = codeFmt (boldFmt s)"
  by (simp add: formatSegment_def processInlineFormatting_def boldLoop_boldFmt codeLoop_codeFmt)

lemma processInlineFormatting_eq: "processInlineFormatting s = Some (formatSegment s)"
  by (simp add: formatSegment_eq processInlineFormatting_def boldLoop_boldFmt codeLoop_codeFmt)




subsection \<open>Strings that end plainly\<close>

lemma endsPlain_Nil: "endsPlain []"
  by (simp add: endsPlain_def)

lemma endsPlain_concat: "list_all endsPlain xs \<Longrightarrow> endsPlain (concat xs)"
proof (induction xs)
  case Nil
  show ?case by (simp add: endsPlain_Nil)
next
  case (Cons x xs)
  then have "endsPlain x" and "endsPlain (concat xs)" by simp_all
  then show ?case by (simp only: concat.simps endsPlain_append split: if_splits) simp
qed




lemma boldStep_endsPlain:
  assumes "boldStep x = Some x'" and "endsPlain x"
  shows "endsPlain x'"
proof -
  from boldStep_Some [OF assms(1)] obtain p m r where
    x: "x = p @ ''**'' @ m @ ''**'' @ r"
    and x': "x' = p @ ''<strong>'' @ m @ ''</strong>'' @ r" by blast
  show ?thesis
  proof (cases "r = []")
    case True
    then show ?thesis by (simp add: x' endsPlain_def)
  next
    case False
    with assms(2) show ?thesis by (simp add: x x' endsPlain_def)
  qed
qed



subsection \<open>A list of blocks whose delimiters pair within each block\<close>









subsection \<open>A substring without bold delimiters survives the bold loop\<close>

lemma countBold_delim: "countBold (''**'' @ q) = Suc (countBold q)"
  by simp

lemma first_bold:
  assumes "countBold y \<noteq> 0"
  shows "\<exists>a b. y = a @ ''**'' @ b \<and> boldFree a"
proof -
  from assms obtain i where i: "Index y ''**'' = Some i"
    using Index_bold_None [of y] by (cases "Index y ''**''") simp_all
  from Index_bold_Some [OF i] show ?thesis by blast
qed

lemma one_bold:
  assumes "countBold x = 1" and "endsPlain x"
  shows "\<exists>p q. x = p @ ''**'' @ q \<and> boldFree p \<and> boldFree q"
proof -
  from assms(1) have "countBold x \<noteq> 0" by simp
  from first_bold [OF this] obtain p q where x: "x = p @ ''**'' @ q" and p: "boldFree p"
    by blast
  have "countBold x = Suc (countBold q)"
    unfolding x by (simp only: countBold_append [OF p] countBold_delim)
  with assms(1) have cq: "countBold q = 0" by simp
  have "q \<noteq> []"
  proof
    assume "q = []"
    with x have "x \<noteq> [] \<and> last x = CHR ''*''" by simp
    with assms(2) show False by (simp add: endsPlain_def)
  qed
  with assms(2) have "endsPlain q" by (simp add: x endsPlain_def)
  with cq have "boldFree q" by (simp add: boldFree_iff)
  with x p show ?thesis by blast
qed

lemma boldStep_keeps:
  assumes "endsPlain x" and "boldFree w" and "boldStep (x @ w @ y) = Some t"
  shows "\<exists>x' y'. t = x' @ w @ y' \<and> endsPlain x'"
proof -
  consider (none) "countBold x = 0" | (one) "countBold x = 1" | (more) "2 \<le> countBold x"
    by linarith
  then show ?thesis
  proof cases
    case none
    with assms(1) have "boldFree x" by (simp add: boldFree_iff)
    from this assms(2) have f: "boldFree (x @ w)" by (rule boldFree_append)
    from boldStep_append [OF f, of y] assms(3) obtain y' where "t = (x @ w) @ y'"
      by (auto simp: map_option_case split: option.splits)
    with assms(1) show ?thesis by auto
  next
    case one
    from one_bold [OF one assms(1)] obtain p q where
      x: "x = p @ ''**'' @ q" and p: "boldFree p" and q: "boldFree q" by blast
    have cw: "countBold w = 0" and ew: "endsPlain w"
      using assms(2) by (simp_all add: boldFree_iff)
    have exw: "endsPlain (x @ w)" using assms(1) ew by (simp add: endsPlain_append)
    have "countBold ((x @ w) @ y) = countBold (x @ w) + countBold y"
      using exw by (rule countBold_add)
    also have "countBold (x @ w) = countBold x + countBold w"
      using assms(1) by (rule countBold_add)
    finally have c: "countBold (x @ w @ y) = 1 + countBold y" using one cw by simp
    have "countBold y \<noteq> 0"
    proof
      assume "countBold y = 0"
      with c have "countBold (x @ w @ y) < 2" by simp
      then have "boldStep (x @ w @ y) = None" by (simp add: boldStep_None)
      with assms(3) show False by simp
    qed
    from first_bold [OF this] obtain a b where y: "y = a @ ''**'' @ b" and a: "boldFree a"
      by blast
    have m: "boldFree (q @ w @ a)"
      using q assms(2) a by (simp add: boldFree_append)
    have "x @ w @ y = p @ ''**'' @ (q @ w @ a) @ ''**'' @ b" by (simp add: x y)
    with boldStep_intro [OF p m, of b] assms(3)
    have t: "t = (p @ ''<strong>'' @ q) @ w @ (a @ ''</strong>'' @ b)" by simp
    have "endsPlain (p @ ''<strong>'' @ q)"
    proof (cases "q = []")
      case True
      then show ?thesis by (simp add: endsPlain_def)
    next
      case False
      moreover have "endsPlain q" using q by (simp add: boldFree_iff)
      ultimately show ?thesis by (simp add: endsPlain_def)
    qed
    with t show ?thesis by blast
  next
    case more
    then obtain x1 where s: "boldStep x = Some x1"
      using boldStep_None [of x] by (cases "boldStep x") simp_all
    from boldStep_Some [OF s] obtain p m r where
      x: "x = p @ ''**'' @ m @ ''**'' @ r" and p: "boldFree p" and m: "boldFree m"
      and x1: "x1 = p @ ''<strong>'' @ m @ ''</strong>'' @ r" by blast
    from boldStep_intro [OF p m, of "r @ w @ y"] assms(3) have "t = x1 @ w @ y"
      by (simp add: x x1)
    moreover have "endsPlain x1" using s assms(1) by (rule boldStep_endsPlain)
    ultimately show ?thesis by blast
  qed
qed

lemma boldLoop_keeps:
  "endsPlain x \<Longrightarrow> boldFree w \<Longrightarrow> \<exists>x' y'. boldLoop (x @ w @ y) = Some (x' @ w @ y')"
proof (induction "countBold (x @ w @ y)" arbitrary: x y rule: less_induct)
  case less
  show ?case
  proof (cases "boldStep (x @ w @ y)")
    case None
    then have "boldLoop (x @ w @ y) = Some (x @ w @ y)" by (rule boldLoop_break)
    then show ?thesis by blast
  next
    case (Some t)
    from boldStep_keeps [OF less.prems Some] obtain x' y' where
      t: "t = x' @ w @ y'" and e: "endsPlain x'" by blast
    have lt: "countBold (x' @ w @ y') < countBold (x @ w @ y)"
      using boldStep_count [OF Some] by (simp add: t)
    from less.hyps [OF lt e less.prems(2)] obtain x2 y2 where
      "boldLoop (x' @ w @ y') = Some (x2 @ w @ y2)" by blast
    with Some t have "boldLoop (x @ w @ y) = Some (x2 @ w @ y2)"
      by (simp add: boldLoop_continue)
    then show ?thesis by blast
  qed
qed

subsection \<open>An even number of delimiters is used up\<close>


subsection \<open>The loops only exchange delimiters for tags\<close>

lemma tagsInserted_trans: "tagsInserted a b \<Longrightarrow> tagsInserted b c \<Longrightarrow> tagsInserted a c"
proof (induction rule: tagsInserted.induct)
  case (same s)
  then show ?case .
next
  case (bold p m r h)
  from bold.IH [OF bold.prems] show ?case by (rule tagsInserted.bold)
next
  case (code p m r h)
  from code.IH [OF code.prems] show ?case by (rule tagsInserted.code)
qed

lemma tagsInserted_boldLoop: "boldLoop s = Some b \<Longrightarrow> tagsInserted s b"
proof (induction "countBold s" arbitrary: s rule: less_induct)
  case less
  show ?case
  proof (cases "boldStep s")
    case None
    with less.prems show ?thesis by (simp add: boldLoop_break tagsInserted.same)
  next
    case (Some s')
    then have lt: "countBold s' < countBold s" using boldStep_count [OF Some] by simp
    have "boldLoop s' = Some b" using less.prems Some by (simp add: boldLoop_continue)
    with less.hyps [OF lt] have t: "tagsInserted s' b" by blast
    from boldStep_Some [OF Some] obtain p m r where
      "s = p @ ''**'' @ m @ ''**'' @ r" and "s' = p @ ''<strong>'' @ m @ ''</strong>'' @ r"
      by blast
    with t show ?thesis by (simp only: tagsInserted.bold)
  qed
qed

lemma tagsInserted_codeLoop: "codeLoop s = Some b \<Longrightarrow> tagsInserted s b"
proof (induction "countTick s" arbitrary: s rule: less_induct)
  case less
  show ?case
  proof (cases "codeStep s")
    case None
    with less.prems show ?thesis by (simp add: codeLoop_break tagsInserted.same)
  next
    case (Some s')
    then have lt: "countTick s' < countTick s" using codeStep_count [OF Some] by simp
    have "codeLoop s' = Some b" using less.prems Some by (simp add: codeLoop_continue)
    with less.hyps [OF lt] have t: "tagsInserted s' b" by blast
    from codeStep_Some [OF Some] obtain p m r where
      "s = p @ ''`'' @ m @ ''`'' @ r" and "s' = p @ ''<code>'' @ m @ ''</code>'' @ r"
      by blast
    with t show ?thesis by (simp only: tagsInserted.code)
  qed
qed

lemma tagsInserted_format: "processInlineFormatting s = Some h \<Longrightarrow> tagsInserted s h"
proof -
  assume "processInlineFormatting s = Some h"
  then obtain b where b: "boldLoop s = Some b" and c: "codeLoop b = Some h"
    by (auto simp: processInlineFormatting_def split: option.splits)
  from tagsInserted_boldLoop [OF b] tagsInserted_codeLoop [OF c] show ?thesis
    by (rule tagsInserted_trans)
qed

section \<open>Every special character of the output is written by the renderer\<close>

subsection \<open>Safe strings\<close>

lemma safe_Lit: "\<not> special c \<Longrightarrow> safeHtml (c # s) = safeHtml s"
  by (simp add: safeHtml.simps(2))

lemma token_head:
  "t \<in> set (structuralTags @ entities) \<Longrightarrow> \<exists>c t'. t = c # t' \<and> special c"
  by (auto simp: structuralTags_def entities_def special_def)

lemma token_chars:
  "t \<in> set (structuralTags @ entities) \<Longrightarrow> CHR ''*'' \<notin> set t \<and> CHR ''`'' \<notin> set t"
  by (auto simp: structuralTags_def entities_def)

lemma safe_Tok:
  assumes "t \<in> set (structuralTags @ entities)" and "safeHtml s"
  shows "safeHtml (t @ s)"
proof -
  from token_head [OF assms(1)] obtain c t' where t: "t = c # t'" and c: "special c"
    by blast
  have "HasPrefix (t @ s) t \<and> safeHtml (drop (length t) (t @ s))"
    using assms(2) by (simp add: HasPrefix_def)
  with assms(1) have "list_ex (\<lambda>u. HasPrefix (t @ s) u \<and> safeHtml (drop (length u) (t @ s)))
                        (structuralTags @ entities)"
    unfolding list_ex_iff by blast
  then show ?thesis using c unfolding t by (simp add: safeHtml.simps(2))
qed

lemma safe_special:
  assumes "special c" and "safeHtml (c # cs)"
  shows "\<exists>t\<in>set (structuralTags @ entities).
           HasPrefix (c # cs) t \<and> safeHtml (drop (length t) (c # cs))"
  using assms unfolding safeHtml.simps(2) list_ex_iff by simp

lemma HasPrefix_split: "HasPrefix s t \<Longrightarrow> s = t @ drop (length t) s"
  by (metis HasPrefix_def append_take_drop_id)

lemma safe_append: "safeHtml x \<Longrightarrow> safeHtml y \<Longrightarrow> safeHtml (x @ y)"
proof (induction "length x" arbitrary: x rule: less_induct)
  case less
  show ?case
  proof (cases x)
    case Nil
    with less.prems show ?thesis by simp
  next
    case (Cons a as)
    show ?thesis
    proof (cases "special a")
      case False
      with less.prems Cons have "safeHtml as" by (simp add: safe_Lit)
      with less.hyps [of as] less.prems(2) Cons have "safeHtml (as @ y)" by simp
      with False Cons show ?thesis by (simp add: safe_Lit)
    next
      case True
      from safe_special [OF True] less.prems(1) Cons obtain t where
        t: "t \<in> set (structuralTags @ entities)" and pre: "HasPrefix x t"
        and rest: "safeHtml (drop (length t) x)" by blast
      have "0 < length t" using t by (rule token_nonempty)
      then have "length (drop (length t) x) < length x" using Cons by simp
      from less.hyps [OF this rest less.prems(2)]
      have "safeHtml (drop (length t) x @ y)" .
      with t have "safeHtml (t @ drop (length t) x @ y)" by (rule safe_Tok)
      moreover have "x = t @ drop (length t) x" using pre by (rule HasPrefix_split)
      ultimately show ?thesis by (metis append.assoc)
    qed
  qed
qed

lemma safe_split:
  assumes "d = CHR ''*'' \<or> d = CHR ''`''"
  shows "safeHtml (x @ d # y) \<Longrightarrow> safeHtml x \<and> safeHtml y"
proof (induction "length x" arbitrary: x rule: less_induct)
  case less
  have nd: "\<not> special d" using assms by (auto simp: special_def)
  show ?case
  proof (cases x)
    case Nil
    with less.prems nd show ?thesis by (simp add: safe_Lit)
  next
    case (Cons a as)
    show ?thesis
    proof (cases "special a")
      case False
      with less.prems Cons have "safeHtml (as @ d # y)" by (simp add: safe_Lit)
      with less.hyps [of as] Cons have "safeHtml as \<and> safeHtml y" by simp
      with False Cons show ?thesis by (simp add: safe_Lit)
    next
      case True
      from less.prems Cons have "safeHtml (a # as @ d # y)" by simp
      from safe_special [OF True this] obtain t where
        t: "t \<in> set (structuralTags @ entities)" and pre: "HasPrefix (a # as @ d # y) t"
        and rest: "safeHtml (drop (length t) (a # as @ d # y))" by blast
      from token_chars [OF t] assms have dt: "d \<notin> set t" by auto
      have len: "length t \<le> length x"
      proof (rule ccontr)
        assume "\<not> length t \<le> length x"
        then have "length x < length t" by simp
        moreover from pre have "t = take (length t) (x @ d # y)"
          by (simp add: HasPrefix_def Cons)
        ultimately have "t ! length x = d"
          by (metis nth_take nth_append_length)
        with \<open>length x < length t\<close> have "d \<in> set t" by (metis nth_mem)
        with dt show False by simp
      qed
      from pre have "take (length t) (x @ d # y) = t" by (simp add: HasPrefix_def Cons)
      with len have pre': "HasPrefix x t" by (simp add: HasPrefix_def)
      have "drop (length t) (x @ d # y) = drop (length t) x @ d # y"
        using len by simp
      with rest have r: "safeHtml (drop (length t) x @ d # y)" by (simp add: Cons)
      have "0 < length t" using t by (rule token_nonempty)
      then have "length (drop (length t) x) < length x" using Cons by simp
      from less.hyps [OF this r] have ih: "safeHtml (drop (length t) x)" "safeHtml y"
        by simp_all
      from t ih(1) have "safeHtml (t @ drop (length t) x)" by (rule safe_Tok)
      moreover have "x = t @ drop (length t) x" using pre' by (rule HasPrefix_split)
      ultimately have "safeHtml x" by simp
      with ih(2) show ?thesis by simp
    qed
  qed
qed

subsection \<open>The block output is safe\<close>

lemma safe_escapeByte: "safeHtml s \<Longrightarrow> safeHtml (escapeByte c @ s)"
proof -
  assume s: "safeHtml s"
  have ent: "\<And>e. e \<in> set entities \<Longrightarrow> safeHtml (e @ s)"
    using s by (intro safe_Tok) simp_all
  consider "c = CHR 0x00" | "c = CHR 0x22" | "c = CHR 0x27" | "c = CHR ''&''"
    | "c = CHR ''<''" | "c = CHR ''>''"
    | "c \<noteq> CHR 0x00" "c \<noteq> CHR 0x22" "c \<noteq> CHR 0x27" "c \<noteq> CHR ''&''"
      "c \<noteq> CHR ''<''" "c \<noteq> CHR ''>''"
    by blast
  then show ?thesis
  proof cases
    case 1
    then show ?thesis using s by (simp add: escapeByte_def safe_Lit special_def)
  next
    case 2
    then show ?thesis using ent [of "''&#34;''"] by (simp add: escapeByte_def entities_def)
  next
    case 3
    then show ?thesis using ent [of "''&#39;''"] by (simp add: escapeByte_def entities_def)
  next
    case 4
    then show ?thesis using ent [of "''&amp;''"] by (simp add: escapeByte_def entities_def)
  next
    case 5
    then show ?thesis using ent [of "''&lt;''"] by (simp add: escapeByte_def entities_def)
  next
    case 6
    then show ?thesis using ent [of "''&gt;''"] by (simp add: escapeByte_def entities_def)
  next
    case 7
    then show ?thesis using s by (simp add: escapeByte_def safe_Lit special_def)
  qed
qed

lemma safe_escape_append: "safeHtml s \<Longrightarrow> safeHtml (HTMLEscapeString x @ s)"
  by (induction x) (simp_all add: HTMLEscapeString_def safe_escapeByte)

lemma safe_escape: "safeHtml (HTMLEscapeString x)"
  using safe_escape_append [of "[]" x] by simp

lemma safe_WriteString:
  "safeHtml (sb st) \<Longrightarrow> safeHtml x \<Longrightarrow> safeHtml (sb (WriteString x st))"
  by (simp add: WriteString_def safe_append)

lemma safe_consts:
  "safeHtml ''<p>''" "safeHtml ''</p>\<newline>''" "safeHtml ''</ul>\<newline>''"
  "safeHtml ''<pre><code>''" "safeHtml ''\<newline>''" "safeHtml ''</code></pre>\<newline>''"
  "safeHtml ''<h2>''" "safeHtml ''</h2>\<newline>''" "safeHtml ''<ul>\<newline>''"
  "safeHtml ''<li>''" "safeHtml ''</li>\<newline>''"
  "safeHtml ''<strong>''" "safeHtml ''</strong>''" "safeHtml ''<code>''" "safeHtml ''</code>''"
  by code_simp+

lemma safe_flushParagraph: "safeHtml (sb st) \<Longrightarrow> safeHtml (sb (flushParagraph st))"
  by (simp add: flushParagraph_def Let_def safe_WriteString safe_consts safe_escape)

lemma safe_closeList: "safeHtml (sb st) \<Longrightarrow> safeHtml (sb (closeList st))"
  by (simp add: closeList_def safe_WriteString safe_consts)

lemma safe_renderLine: "safeHtml (sb st) \<Longrightarrow> safeHtml (sb (renderLine st line))"
  by (simp add: renderLine_def Let_def safe_WriteString safe_consts safe_escape
        safe_flushParagraph safe_closeList)

lemma safe_foldl: "safeHtml (sb st) \<Longrightarrow> safeHtml (sb (foldl renderLine st ls))"
  by (induction ls arbitrary: st) (simp_all add: safe_renderLine)

lemma safe_renderBlocks: "safeHtml (renderBlocks content)"
proof -
  have "safeHtml (sb initialState)" by (simp add: initialState_def)
  then have "safeHtml (sb (foldl renderLine initialState (SplitLines content)))"
    by (rule safe_foldl)
  then show ?thesis
    by (simp add: renderBlocks_def Let_def safe_WriteString safe_consts safe_flushParagraph)
qed

subsection \<open>The inline pass keeps a string safe\<close>

lemma safe_boldStep:
  assumes "boldStep s = Some s'" and "safeHtml s"
  shows "safeHtml s'"
proof -
  from boldStep_Some [OF assms(1)] obtain p m r where
    s: "s = p @ ''**'' @ m @ ''**'' @ r"
    and s': "s' = p @ ''<strong>'' @ m @ ''</strong>'' @ r" by blast
  have star: "CHR ''*'' = CHR ''*'' \<or> CHR ''*'' = CHR ''`''" by simp
  from assms(2) have "safeHtml (p @ CHR ''*'' # (CHR ''*'' # m @ ''**'' @ r))" by (simp add: s)
  from safe_split [OF star this] have p: "safeHtml p"
    and 1: "safeHtml ([] @ CHR ''*'' # (m @ CHR ''*'' # (CHR ''*'' # r)))" by simp_all
  from safe_split [OF star 1] have "safeHtml (m @ CHR ''*'' # (CHR ''*'' # r))" by simp
  from safe_split [OF star this] have m: "safeHtml m"
    and 2: "safeHtml ([] @ CHR ''*'' # r)" by simp_all
  from safe_split [OF star 2] have r: "safeHtml r" by simp
  show ?thesis unfolding s'
    by (intro safe_append p m r safe_consts)
qed

lemma safe_codeStep:
  assumes "codeStep s = Some s'" and "safeHtml s"
  shows "safeHtml s'"
proof -
  from codeStep_Some [OF assms(1)] obtain p m r where
    s: "s = p @ ''`'' @ m @ ''`'' @ r"
    and s': "s' = p @ ''<code>'' @ m @ ''</code>'' @ r" by blast
  have tick: "CHR ''`'' = CHR ''*'' \<or> CHR ''`'' = CHR ''`''" by simp
  from assms(2) have "safeHtml (p @ CHR ''`'' # (m @ ''`'' @ r))" by (simp add: s)
  from safe_split [OF tick this] have p: "safeHtml p"
    and 1: "safeHtml (m @ CHR ''`'' # r)" by simp_all
  from safe_split [OF tick 1] have m: "safeHtml m" and r: "safeHtml r" by simp_all
  show ?thesis unfolding s'
    by (intro safe_append p m r safe_consts)
qed

lemma safe_boldLoop: "safeHtml s \<Longrightarrow> boldLoop s = Some r \<Longrightarrow> safeHtml r"
proof (induction "countBold s" arbitrary: s rule: less_induct)
  case less
  show ?case
  proof (cases "boldStep s")
    case None
    with less.prems show ?thesis by (simp add: boldLoop_break)
  next
    case (Some s')
    then have lt: "countBold s' < countBold s" using boldStep_count [OF Some] by simp
    have "safeHtml s'" using Some less.prems(1) by (rule safe_boldStep)
    moreover have "boldLoop s' = Some r" using less.prems(2) Some by (simp add: boldLoop_continue)
    ultimately show ?thesis using less.hyps [OF lt] by blast
  qed
qed

lemma safe_codeLoop: "safeHtml s \<Longrightarrow> codeLoop s = Some r \<Longrightarrow> safeHtml r"
proof (induction "countTick s" arbitrary: s rule: less_induct)
  case less
  show ?case
  proof (cases "codeStep s")
    case None
    with less.prems show ?thesis by (simp add: codeLoop_break)
  next
    case (Some s')
    then have lt: "countTick s' < countTick s" using codeStep_count [OF Some] by simp
    have "safeHtml s'" using Some less.prems(1) by (rule safe_codeStep)
    moreover have "codeLoop s' = Some r" using less.prems(2) Some by (simp add: codeLoop_continue)
    ultimately show ?thesis using less.hyps [OF lt] by blast
  qed
qed

lemma processInlineFormatting_total: "\<exists>r. processInlineFormatting s = Some r"
proof -
  from boldLoop_total obtain b where b: "boldLoop s = Some b" by blast
  from codeLoop_total obtain r where "codeLoop b = Some r" by blast
  with b show ?thesis by (simp add: processInlineFormatting_def)
qed

subsection \<open>What the escaping writes is escaped text\<close>

lemma HasPrefix_append:
  assumes "HasPrefix s e"
  shows "HasPrefix (s @ y) e"
proof -
  from assms have "take (length e) s = e" by (simp add: HasPrefix_def)
  then have "length e \<le> length s" by (metis length_take min.cobounded1)
  with assms show ?thesis by (simp add: HasPrefix_def)
qed

lemma escapedText_append: "escapedText x \<Longrightarrow> escapedText y \<Longrightarrow> escapedText (x @ y)"
proof (induction x)
  case Nil
  then show ?case by simp
next
  case (Cons c cs)
  then have t: "escapedText (cs @ y)" by simp
  show ?case
  proof (cases "c = CHR ''&''")
    case True
    with Cons.prems(1) obtain e where e: "e \<in> set entities" and h: "HasPrefix (c # cs) e"
      by (auto simp: list_ex_iff)
    from h have "HasPrefix ((c # cs) @ y) e" by (rule HasPrefix_append)
    then have "HasPrefix (c # cs @ y) e" by simp
    with e have "list_ex (HasPrefix (c # cs @ y)) entities" unfolding list_ex_iff by blast
    with True t show ?thesis by simp
  next
    case False
    with Cons.prems(1) t show ?thesis by simp
  qed
qed

lemma escapedText_escapeByte: "escapedText (escapeByte c)"
  by (simp add: escapeByte_def entities_def HasPrefix_def)

lemma escapedText_escape: "escapedText (HTMLEscapeString x)"
  by (induction x) (simp_all add: HTMLEscapeString_def escapedText_append escapedText_escapeByte)

section \<open>Case analysis of the loop body\<close>

lemma sb_WriteString: "sb (WriteString x st) = sb st @ x"
  by (simp add: WriteString_def)

lemma WriteString_twice: "WriteString x (WriteString y st) = WriteString (y @ x) st"
  by (simp add: WriteString_def)

lemma TrimPrefix_drop: "HasPrefix s p \<Longrightarrow> TrimPrefix s p = drop (length p) s"
  by (simp add: TrimPrefix_def)

lemma renderLine_code:
  assumes "HasPrefix l ''    ''"
  shows "renderLine st l = WriteString (HTMLEscapeString (drop 4 l) @ ''\<newline>'') (enterCode st)"
proof -
  from assms have tp: "TrimPrefix l ''    '' = drop 4 l"
    by (simp add: TrimPrefix_def eval_nat_numeral)
  show ?thesis
  proof (cases "inCodeBlock st")
    case True
    with assms tp show ?thesis
      by (simp add: renderLine_def Let_def enterCode_def WriteString_twice)
  next
    case False
    have "inCodeBlock ((WriteString ''<pre><code>'' (closeList (flushParagraph st)))
            \<lparr>inCodeBlock := True\<rparr>)" by simp
    with assms tp False show ?thesis
      by (simp add: renderLine_def Let_def enterCode_def WriteString_twice)
  qed
qed

lemma inCodeBlock_leaveCode: "\<not> inCodeBlock (leaveCode st)"
  by (simp add: leaveCode_def WriteString_def)

lemma renderLine_text:
  assumes "\<not> HasPrefix l ''    ''"
  shows "renderLine st l =
     (let trimmed = TrimSpace l; st2 = leaveCode st in
      if trimmed = [] then closeList (flushParagraph st2)
      else if HasPrefix trimmed ''## '' then
        WriteString (''<h2>'' @ HTMLEscapeString (drop 3 trimmed) @ ''</h2>\<newline>'')
          (closeList (flushParagraph st2))
      else if HasPrefix trimmed ''# '' then
        WriteString (''<h2>'' @ HTMLEscapeString (drop 2 trimmed) @ ''</h2>\<newline>'')
          (closeList (flushParagraph st2))
      else if HasPrefix trimmed ''- '' then
        WriteString (''<li>'' @ HTMLEscapeString (drop 2 trimmed) @ ''</li>\<newline>'')
          (openList (flushParagraph st2))
      else st2\<lparr>paragraphBuf := paragraphBuf st2 @ [trimmed]\<rparr>)"
proof -
  have tp: "\<And>s p. HasPrefix s p \<Longrightarrow> TrimPrefix s p = drop (length p) s"
    by (rule TrimPrefix_drop)
  have l3: "length ''## '' = 3" and l2: "length ''# '' = 2" "length ''- '' = 2" by simp_all
  have st2: "(if inCodeBlock st
              then (WriteString ''</code></pre>\<newline>'' st)\<lparr>inCodeBlock := False\<rparr>
              else st) = leaveCode st" by (simp add: leaveCode_def)
  show ?thesis
    unfolding renderLine_def Let_def
    using assms
    by (simp only: simp_thms if_False if_True st2 WriteString_twice openList_def
                   append.assoc split: if_splits)
       (auto simp only: tp l3 l2 simp_thms if_True if_False append.assoc)
qed

lemma flushParagraph_grows: "\<exists>z. sb (flushParagraph st) = sb st @ z"
  by (simp add: flushParagraph_def Let_def WriteString_def)

lemma closeList_grows: "\<exists>z. sb (closeList st) = sb st @ z"
  by (simp add: closeList_def WriteString_def)

lemma openList_grows: "\<exists>z. sb (openList st) = sb st @ z"
  by (simp add: openList_def WriteString_def)

lemma leaveCode_grows: "\<exists>z. sb (leaveCode st) = sb st @ z"
  by (simp add: leaveCode_def WriteString_def)

lemma enterCode_grows: "\<exists>z. sb (enterCode st) = sb st @ z"
proof -
  from flushParagraph_grows obtain z1 where "sb (flushParagraph st) = sb st @ z1" by blast
  moreover from closeList_grows obtain z2 where
    "sb (closeList (flushParagraph st)) = sb (flushParagraph st) @ z2" by blast
  ultimately show ?thesis by (simp add: enterCode_def WriteString_def)
qed

lemma code_line_written:
  assumes "HasPrefix l ''    ''"
  shows "\<exists>z. sb (renderLine st l) = sb st @ z @ HTMLEscapeString (drop 4 l) @ ''\<newline>''"
proof -
  from enterCode_grows obtain z where "sb (enterCode st) = sb st @ z" by blast
  then have "sb (renderLine st l) = sb st @ z @ HTMLEscapeString (drop 4 l) @ ''\<newline>''"
    by (simp add: renderLine_code [OF assms] sb_WriteString)
  then show ?thesis by blast
qed

lemma renderLine_grows: "\<exists>z. sb (renderLine st l) = sb st @ z"
proof (cases "HasPrefix l ''    ''")
  case True
  from code_line_written [OF True, of st] show ?thesis by (metis append.assoc)
next
  case False
  define st2 where "st2 = leaveCode st"
  from leaveCode_grows obtain z0 where z0: "sb st2 = sb st @ z0" unfolding st2_def by blast
  from flushParagraph_grows obtain z1 where z1: "sb (flushParagraph st2) = sb st2 @ z1"
    by blast
  from closeList_grows obtain z2 where
    z2: "sb (closeList (flushParagraph st2)) = sb (flushParagraph st2) @ z2" by blast
  from openList_grows obtain z3 where
    z3: "sb (openList (flushParagraph st2)) = sb (flushParagraph st2) @ z3" by blast
  have "\<exists>z. sb (renderLine st l) = sb st2 @ z"
    unfolding renderLine_text [OF False] Let_def st2_def [symmetric]
    by (simp add: sb_WriteString z1 z2 z3)
  then show ?thesis by (auto simp: z0)
qed

lemma foldl_grows: "\<exists>z. sb (foldl renderLine st ls) = sb st @ z"
proof (induction ls arbitrary: st)
  case Nil
  show ?case by simp
next
  case (Cons l ls)
  from renderLine_grows obtain z1 where "sb (renderLine st l) = sb st @ z1" by blast
  moreover from Cons obtain z2 where
    "sb (foldl renderLine (renderLine st l) ls) = sb (renderLine st l) @ z2" by blast
  ultimately show ?case by simp
qed

lemma renderBlocks_grows:
  "\<exists>z. renderBlocks content = sb (foldl renderLine initialState (SplitLines content)) @ z"
proof -
  define st where "st = foldl renderLine initialState (SplitLines content)"
  define st1 where "st1 = (if inCodeBlock st then WriteString ''</code></pre>\<newline>'' st else st)"
  define st2 where "st2 = (if inList st1 then WriteString ''</ul>\<newline>'' st1 else st1)"
  have 1: "\<exists>z. sb st1 = sb st @ z" by (simp add: st1_def WriteString_def)
  have 2: "\<exists>z. sb st2 = sb st1 @ z" by (simp add: st2_def WriteString_def)
  from flushParagraph_grows obtain z3 where 3: "sb (flushParagraph st2) = sb st2 @ z3" by blast
  have "renderBlocks content = sb (flushParagraph st2)"
    by (simp add: renderBlocks_def Let_def st_def st1_def st2_def)
  with 1 2 3 show ?thesis unfolding st_def [symmetric] by auto
qed


section \<open>The chunk run simulates the line loop\<close>

lemma rel_emit: "rel st bs \<Longrightarrow> rel (WriteString (rawChunk c) st) (emit c bs)"
  by (simp add: rel_def WriteString_def emit_def)

lemma flushParagraph_eq:
  "flushParagraph st =
     (if paragraphBuf st \<noteq> [] then
        (WriteString (''<p>'' @ HTMLEscapeString (Join (paragraphBuf st) '' '') @ ''</p>\<newline>'') st)
          \<lparr>paragraphBuf := []\<rparr>
      else st)"
  by (simp add: flushParagraph_def Let_def WriteString_def)

lemma rel_flush: "rel st bs \<Longrightarrow> rel (flushParagraph st) (flushBlock bs)"
  by (simp add: rel_def flushParagraph_eq flushBlock_def WriteString_def emit_def)

lemma rel_closeList: "rel st bs \<Longrightarrow> rel (closeList st) (closeListBlock bs)"
  by (simp add: rel_def closeList_def closeListBlock_def WriteString_def emit_def)

lemma rel_openList: "rel st bs \<Longrightarrow> rel (openList st) (openListBlock bs)"
  by (simp add: rel_def openList_def openListBlock_def WriteString_def emit_def)

lemma rel_leaveCode: "rel st bs \<Longrightarrow> rel (leaveCode st) (leaveCodeBlock bs)"
  by (simp add: rel_def leaveCode_def leaveCodeBlock_def WriteString_def emit_def)

lemma rel_enterCode: "rel st bs \<Longrightarrow> rel (enterCode st) (enterCodeBlock bs)"
proof -
  assume "rel st bs"
  then have "rel (closeList (flushParagraph st)) (closeListBlock (flushBlock bs))"
    by (intro rel_closeList rel_flush)
  then show ?thesis using \<open>rel st bs\<close>
    by (simp add: rel_def enterCode_def enterCodeBlock_def WriteString_def emit_def)
qed

lemma rel_renderLine:
  assumes "rel st bs"
  shows "rel (renderLine st l) (blockLine bs l)"
proof (cases "HasPrefix l ''    ''")
  case True
  have "rel (WriteString (rawChunk (Code (drop 4 l))) (enterCode st))
            (emit (Code (drop 4 l)) (enterCodeBlock bs))"
    using assms by (intro rel_emit rel_enterCode)
  then show ?thesis using True by (simp add: renderLine_code blockLine_def)
next
  case False
  define s2 where "s2 = leaveCode st"
  define b2 where "b2 = leaveCodeBlock bs"
  have 2: "rel s2 b2" unfolding s2_def b2_def using assms by (rule rel_leaveCode)
  have cl: "rel (closeList (flushParagraph s2)) (closeListBlock (flushBlock b2))"
    using 2 by (intro rel_closeList rel_flush)
  have ol: "rel (openList (flushParagraph s2)) (openListBlock (flushBlock b2))"
    using 2 by (intro rel_openList rel_flush)
  define t where "t = TrimSpace l"
  have h3: "rel (WriteString (''<h2>'' @ HTMLEscapeString (drop 3 t) @ ''</h2>\<newline>'')
                  (closeList (flushParagraph s2)))
            (emit (Text ''<h2>'' (drop 3 t) ''</h2>\<newline>'') (closeListBlock (flushBlock b2)))"
    using rel_emit [OF cl, of "Text ''<h2>'' (drop 3 t) ''</h2>\<newline>''"] by simp
  have h2: "rel (WriteString (''<h2>'' @ HTMLEscapeString (drop 2 t) @ ''</h2>\<newline>'')
                  (closeList (flushParagraph s2)))
            (emit (Text ''<h2>'' (drop 2 t) ''</h2>\<newline>'') (closeListBlock (flushBlock b2)))"
    using rel_emit [OF cl, of "Text ''<h2>'' (drop 2 t) ''</h2>\<newline>''"] by simp
  have li: "rel (WriteString (''<li>'' @ HTMLEscapeString (drop 2 t) @ ''</li>\<newline>'')
                  (openList (flushParagraph s2)))
            (emit (Text ''<li>'' (drop 2 t) ''</li>\<newline>'') (openListBlock (flushBlock b2)))"
    using rel_emit [OF ol, of "Text ''<li>'' (drop 2 t) ''</li>\<newline>''"] by simp
  have pa: "rel (s2\<lparr>paragraphBuf := paragraphBuf s2 @ [t]\<rparr>) (b2\<lparr>pending := pending b2 @ [t]\<rparr>)"
    using 2 by (simp add: rel_def)
  show ?thesis
    unfolding renderLine_text [OF False] blockLine_def Let_def
      s2_def [symmetric] b2_def [symmetric] t_def [symmetric]
    using False cl h3 h2 li pa by simp
qed

lemma rel_foldl: "rel st bs \<Longrightarrow> rel (foldl renderLine st ls) (foldl blockLine bs ls)"
  by (induction ls arbitrary: st bs) (simp_all add: rel_renderLine)

lemma renderBlocks_chunks: "renderBlocks content = concat (map rawChunk (chunksOf content))"
proof -
  define st where "st = foldl renderLine initialState (SplitLines content)"
  define bs where "bs = foldl blockLine initialBlocks (SplitLines content)"
  have "rel initialState initialBlocks" by (simp add: rel_def initialState_def initialBlocks_def)
  then have 0: "rel st bs" unfolding st_def bs_def by (rule rel_foldl)
  define s1 where "s1 = (if inCodeBlock st then WriteString ''</code></pre>\<newline>'' st else st)"
  define b1 where "b1 = (if codeOpen bs then emit (Markup ''</code></pre>\<newline>'') bs else bs)"
  have 1: "rel s1 b1"
    using 0 rel_emit [OF 0, of "Markup ''</code></pre>\<newline>''"]
    by (simp add: s1_def b1_def rel_def)
  define s2 where "s2 = (if inList s1 then WriteString ''</ul>\<newline>'' s1 else s1)"
  define b2 where "b2 = (if listOpen b1 then emit (Markup ''</ul>\<newline>'') b1 else b1)"
  have 2: "rel s2 b2"
    using 1 rel_emit [OF 1, of "Markup ''</ul>\<newline>''"]
    by (simp add: s2_def b2_def rel_def)
  have 3: "rel (flushParagraph s2) (flushBlock b2)" using 2 by (rule rel_flush)
  have "renderBlocks content = sb (flushParagraph s2)"
    by (simp add: renderBlocks_def Let_def st_def s1_def s2_def)
  moreover have "chunksOf content = chunks (flushBlock b2)"
    by (simp add: chunksOf_def Let_def bs_def b1_def b2_def)
  ultimately show ?thesis using 3 by (simp add: rel_def)
qed

subsection \<open>Every chunk is one the renderer writes\<close>

lemma wf_emit: "rendererChunk c \<Longrightarrow> wellFormed bs \<Longrightarrow> wellFormed (emit c bs)"
  by (simp add: wellFormed_def emit_def)

lemma rendererChunk_Markup:
  "rendererChunk (Markup ''<pre><code>'')" "rendererChunk (Markup ''</code></pre>\<newline>'')"
  "rendererChunk (Markup ''<ul>\<newline>'')" "rendererChunk (Markup ''</ul>\<newline>'')"
  by (simp_all add: rendererChunk_def)

lemma rendererChunk_Text:
  "rendererChunk (Text ''<p>'' s ''</p>\<newline>'')"
  "rendererChunk (Text ''<h2>'' s ''</h2>\<newline>'')"
  "rendererChunk (Text ''<li>'' s ''</li>\<newline>'')"
  by (simp_all add: rendererChunk_def)

lemma rendererChunk_Code: "rendererChunk (Code l)"
  by (simp add: rendererChunk_def)

lemma wf_update:
  "wellFormed (bs\<lparr>pending := p\<rparr>) = wellFormed bs"
  "wellFormed (bs\<lparr>listOpen := b\<rparr>) = wellFormed bs"
  "wellFormed (bs\<lparr>codeOpen := b\<rparr>) = wellFormed bs"
  by (simp_all add: wellFormed_def)

lemma wf_flush: "wellFormed bs \<Longrightarrow> wellFormed (flushBlock bs)"
  by (simp add: flushBlock_def wf_update wf_emit rendererChunk_Text)

lemma wf_closeList: "wellFormed bs \<Longrightarrow> wellFormed (closeListBlock bs)"
  by (simp add: closeListBlock_def wf_update wf_emit rendererChunk_Markup)

lemma wf_openList: "wellFormed bs \<Longrightarrow> wellFormed (openListBlock bs)"
  by (simp add: openListBlock_def wf_update wf_emit rendererChunk_Markup)

lemma wf_leaveCode: "wellFormed bs \<Longrightarrow> wellFormed (leaveCodeBlock bs)"
  by (simp add: leaveCodeBlock_def wf_update wf_emit rendererChunk_Markup)

lemma wf_enterCode: "wellFormed bs \<Longrightarrow> wellFormed (enterCodeBlock bs)"
  by (simp add: enterCodeBlock_def wf_update wf_emit rendererChunk_Markup wf_flush wf_closeList)

lemma wf_blockLine: "wellFormed bs \<Longrightarrow> wellFormed (blockLine bs l)"
  by (simp add: blockLine_def Let_def wf_update wf_emit rendererChunk_Text rendererChunk_Code
      wf_flush wf_closeList wf_openList wf_leaveCode wf_enterCode)

lemma wf_foldl: "wellFormed bs \<Longrightarrow> wellFormed (foldl blockLine bs ls)"
  by (induction ls arbitrary: bs) (simp_all add: wf_blockLine)

lemma rendererChunk_chunksOf: "list_all rendererChunk (chunksOf content)"
proof -
  have "wellFormed initialBlocks" by (simp add: wellFormed_def initialBlocks_def)
  then have "wellFormed (foldl blockLine initialBlocks (SplitLines content))" by (rule wf_foldl)
  then show ?thesis
    unfolding chunksOf_def Let_def wellFormed_def [symmetric]
    by (simp add: wf_flush wf_emit rendererChunk_Markup)
qed

lemma rendererChunk_plain: "rendererChunk c \<Longrightarrow> endsPlain (rawChunk c)"
proof (cases c)
  case (Markup t)
  assume "rendererChunk c"
  with Markup show ?thesis by (auto simp: rendererChunk_def endsPlain_def)
next
  case (Text op seg cl)
  assume "rendererChunk c"
  with Text have "cl \<noteq> [] \<and> last cl \<noteq> CHR ''*''" by (auto simp: rendererChunk_def)
  with Text show ?thesis by (simp add: endsPlain_def)
next
  case (Code line)
  then show ?thesis by (simp add: endsPlain_def)
qed



subsection \<open>Chunks are never taken back\<close>

lemma chunks_emit: "set (chunks bs) \<subseteq> set (chunks (emit c bs))"
  by (auto simp: emit_def)

lemma chunks_flush: "set (chunks bs) \<subseteq> set (chunks (flushBlock bs))"
  by (auto simp: flushBlock_def emit_def)

lemma chunks_closeList: "set (chunks bs) \<subseteq> set (chunks (closeListBlock bs))"
  by (auto simp: closeListBlock_def emit_def)

lemma chunks_openList: "set (chunks bs) \<subseteq> set (chunks (openListBlock bs))"
  by (auto simp: openListBlock_def emit_def)

lemma chunks_leaveCode: "set (chunks bs) \<subseteq> set (chunks (leaveCodeBlock bs))"
  by (auto simp: leaveCodeBlock_def emit_def)

lemma chunks_after_emit:
  "set (chunks bs) \<subseteq> set (chunks b) \<Longrightarrow> set (chunks bs) \<subseteq> set (chunks (emit c b))"
  by (auto simp: emit_def)

lemma chunks_blockLine: "set (chunks bs) \<subseteq> set (chunks (blockLine bs l))"
proof -
  have 1: "set (chunks bs) \<subseteq> set (chunks (closeListBlock (flushBlock (leaveCodeBlock bs))))"
    using chunks_leaveCode chunks_flush chunks_closeList by (meson subset_trans)
  have 2: "set (chunks bs) \<subseteq> set (chunks (openListBlock (flushBlock (leaveCodeBlock bs))))"
    using chunks_leaveCode chunks_flush chunks_openList by (meson subset_trans)
  have 3: "set (chunks bs) \<subseteq> set (chunks (enterCodeBlock bs))"
  proof (cases "codeOpen bs")
    case True
    then show ?thesis by (simp add: enterCodeBlock_def)
  next
    case False
    have "set (chunks bs) \<subseteq> set (chunks (closeListBlock (flushBlock bs)))"
      using chunks_flush chunks_closeList by (meson subset_trans)
    with False show ?thesis by (auto simp: enterCodeBlock_def emit_def)
  qed
  have 4: "set (chunks bs) \<subseteq> set (chunks (leaveCodeBlock bs))" by (rule chunks_leaveCode)
  show ?thesis
    unfolding blockLine_def Let_def
    by (simp add: chunks_after_emit 1 2 3 4)
qed

lemma chunks_foldl: "set (chunks bs) \<subseteq> set (chunks (foldl blockLine bs ls))"
proof (induction ls arbitrary: bs)
  case Nil
  show ?case by simp
next
  case (Cons l ls)
  from chunks_blockLine [of bs l] Cons [of "blockLine bs l"] show ?case by auto
qed

lemma chunks_final:
  "set (chunks (foldl blockLine initialBlocks (SplitLines content))) \<subseteq> set (chunksOf content)"
proof -
  define b0 where "b0 = foldl blockLine initialBlocks (SplitLines content)"
  define b1 where "b1 = (if codeOpen b0 then emit (Markup ''</code></pre>\<newline>'') b0 else b0)"
  define b2 where "b2 = (if listOpen b1 then emit (Markup ''</ul>\<newline>'') b1 else b1)"
  have 1: "set (chunks b0) \<subseteq> set (chunks b1)" by (simp add: b1_def chunks_emit)
  have 2: "set (chunks b1) \<subseteq> set (chunks b2)" by (simp add: b2_def chunks_emit)
  have 3: "set (chunks b2) \<subseteq> set (chunks (flushBlock b2))" by (rule chunks_flush)
  have "chunksOf content = chunks (flushBlock b2)"
    by (simp add: chunksOf_def Let_def b0_def b1_def b2_def)
  with 1 2 3 show ?thesis unfolding b0_def [symmetric] by (metis subset_trans)
qed

lemma code_chunk:
  assumes "l \<in> set (SplitLines content)" and "HasPrefix l ''    ''"
  shows "Code (drop 4 l) \<in> set (chunksOf content)"
proof -
  from assms(1) obtain pre post where sp: "SplitLines content = pre @ l # post"
    by (meson split_list)
  define bs where "bs = foldl blockLine initialBlocks pre"
  have "Code (drop 4 l) \<in> set (chunks (blockLine bs l))"
    using assms(2) by (simp add: blockLine_def emit_def)
  with chunks_foldl [of "blockLine bs l" post]
  have "Code (drop 4 l) \<in> set (chunks (foldl blockLine initialBlocks (SplitLines content)))"
    by (auto simp: sp bs_def)
  with chunks_final show ?thesis by blast
qed

lemma code_line_context:
  assumes "l \<in> set (SplitLines content)" and "HasPrefix l ''    ''"
  shows "\<exists>x y. renderBlocks content = x @ (HTMLEscapeString (drop 4 l) @ ''\<newline>'') @ y \<and>
               endsPlain x"
proof -
  from code_chunk [OF assms] obtain pre post where
    c: "chunksOf content = pre @ Code (drop 4 l) # post" by (meson split_list)
  have "list_all rendererChunk pre"
    using rendererChunk_chunksOf [of content] by (simp add: c)
  then have "list_all endsPlain (map rawChunk pre)"
    by (induction pre) (simp_all add: rendererChunk_plain)
  then have "endsPlain (concat (map rawChunk pre))" by (rule endsPlain_concat)
  moreover have "renderBlocks content
      = concat (map rawChunk pre) @ (HTMLEscapeString (drop 4 l) @ ''\<newline>'')
          @ concat (map rawChunk post)"
    by (simp add: renderBlocks_chunks c)
  ultimately show ?thesis by blast
qed

section \<open>Literal text is escaped\<close>

text \<open>
  Claim C3. Whatever the literal text, what \<open>HTMLEscapeString\<close> writes for it holds no \<open><\<close>,
  no \<open>>\<close> and no double quote, and \<open>&\<close> only as the first character of a character
  reference. The block output of every input is a sequence of chunks that are constant
  markup of the renderer, or escaped text between constant tags, or an escaped code line:
  literal text enters the output through the escaping only. The inline pass returns the
  block output with pairs of delimiters exchanged for its tags and nothing else changed,
  and the result reads as a sequence of structural tags, character references and
  characters other than \<open><\<close>, \<open>>\<close>, \<open>&\<close> and the double quote.
\<close>

theorem render_escapes:
  "escapedText (HTMLEscapeString x) \<and>
   renderBlocks content = concat (map rawChunk (chunksOf content)) \<and>
   list_all rendererChunk (chunksOf content) \<and>
   (\<exists>h. renderContent content = Some h \<and> tagsInserted (renderBlocks content) h \<and> safeHtml h)"
proof (intro conjI)
  show "escapedText (HTMLEscapeString x)" by (rule escapedText_escape)
  show "renderBlocks content = concat (map rawChunk (chunksOf content))"
    by (rule renderBlocks_chunks)
  show "list_all rendererChunk (chunksOf content)" by (rule rendererChunk_chunksOf)
  from processInlineFormatting_total obtain h where
    h: "processInlineFormatting (renderBlocks content) = Some h" by blast
  then obtain b where b: "boldLoop (renderBlocks content) = Some b" and c: "codeLoop b = Some h"
    by (auto simp: processInlineFormatting_def split: option.splits)
  from safe_renderBlocks b have "safeHtml b" by (rule safe_boldLoop)
  then have "safeHtml h" using c by (rule safe_codeLoop)
  moreover from h have "tagsInserted (renderBlocks content) h" by (rule tagsInserted_format)
  ultimately show "\<exists>h. renderContent content = Some h \<and>
      tagsInserted (renderBlocks content) h \<and> safeHtml h"
    using h by (simp add: renderContent_def)
qed

theorem render_escapes_witness:
  "HTMLEscapeString ''<b> & </ul>'' = ''&lt;b&gt; &amp; &lt;/ul&gt;'' \<and>
   escapedText ''&lt;b&gt; &amp; &lt;/ul&gt;'' \<and>
   renderContent ''# <b> & it\<newline>    <pre>\<newline>- **</ul>**''
     = Some ''<h2>&lt;b&gt; &amp; it</h2>\<newline><pre><code>&lt;pre&gt;\<newline></code></pre>\<newline><ul>\<newline><li><strong>&lt;/ul&gt;</strong></li>\<newline></ul>\<newline>'' \<and>
   safeHtml ''<h2>&lt;b&gt; &amp; it</h2>\<newline><pre><code>&lt;pre&gt;\<newline></code></pre>\<newline><ul>\<newline><li><strong>&lt;/ul&gt;</strong></li>\<newline></ul>\<newline>''"
proof -
  have e: "HTMLEscapeString ''<b> & </ul>'' = ''&lt;b&gt; &amp; &lt;/ul&gt;''" by code_simp
  have r: "renderContent ''# <b> & it\<newline>    <pre>\<newline>- **</ul>**''
     = Some ''<h2>&lt;b&gt; &amp; it</h2>\<newline><pre><code>&lt;pre&gt;\<newline></code></pre>\<newline><ul>\<newline><li><strong>&lt;/ul&gt;</strong></li>\<newline></ul>\<newline>''"
    by code_simp
  from render_escapes [of "''<b> & </ul>''" "''# <b> & it\<newline>    <pre>\<newline>- **</ul>**''"]
  obtain h where 1: "escapedText (HTMLEscapeString ''<b> & </ul>'')"
    and 2: "renderContent ''# <b> & it\<newline>    <pre>\<newline>- **</ul>**'' = Some h"
    and 3: "safeHtml h" by blast
  from 2 3 r have "safeHtml ''<h2>&lt;b&gt; &amp; it</h2>\<newline><pre><code>&lt;pre&gt;\<newline></code></pre>\<newline><ul>\<newline><li><strong>&lt;/ul&gt;</strong></li>\<newline></ul>\<newline>''"
    by simp
  with 1 e r show ?thesis by simp
qed

section \<open>Termination\<close>

text \<open>
  Claim C5. For every input the render operation returns a result: the loop over the
  lines is a fold over a finite list, and each of the two delimiter-pairing loops leaves
  on every string, because an iteration that does not leave lowers the number of
  delimiters that remain (by two).
\<close>

theorem render_terminates:
  "(\<exists>h. renderContent content = Some h) \<and>
   (\<exists>r. boldLoop s = Some r) \<and> (\<exists>r. codeLoop s = Some r) \<and>
   (boldStep s = Some s' \<longrightarrow> countBold s' < countBold s) \<and>
   (codeStep s = Some s' \<longrightarrow> countTick s' < countTick s)"
proof (intro conjI impI)
  show "\<exists>h. renderContent content = Some h"
    unfolding renderContent_def by (rule processInlineFormatting_total)
  show "\<exists>r. boldLoop s = Some r" by (rule boldLoop_total)
  show "\<exists>r. codeLoop s = Some r" by (rule codeLoop_total)
next
  assume "boldStep s = Some s'"
  from boldStep_count [OF this] show "countBold s' < countBold s" by simp
next
  assume "codeStep s = Some s'"
  from codeStep_count [OF this] show "countTick s' < countTick s" by simp
qed

theorem render_terminates_witness:
  "(\<exists>h. renderContent ''**b** `c`'' = Some h) \<and>
   boldStep ''**b** `c`'' = Some ''<strong>b</strong> `c`'' \<and>
   countBold ''<strong>b</strong> `c`'' < countBold ''**b** `c`'' \<and>
   codeStep ''**b** `c`'' = Some ''**b** <code>c</code>'' \<and>
   countTick ''**b** <code>c</code>'' < countTick ''**b** `c`''"
proof -
  have a: "boldStep ''**b** `c`'' = Some ''<strong>b</strong> `c`''" by code_simp
  have b: "codeStep ''**b** `c`'' = Some ''**b** <code>c</code>''" by code_simp
  from render_terminates [of "''**b** `c`''" "''**b** `c`''" "''<strong>b</strong> `c`''"] a
  have 1: "\<exists>h. renderContent ''**b** `c`'' = Some h"
    and 2: "countBold ''<strong>b</strong> `c`'' < countBold ''**b** `c`''" by blast+
  from render_terminates [of "''**b** `c`''" "''**b** `c`''" "''**b** <code>c</code>''"] b
  have 3: "countTick ''**b** <code>c</code>'' < countTick ''**b** `c`''" by blast
  from 1 a 2 b 3 show ?thesis by blast
qed

section \<open>An unpaired bold delimiter\<close>





section \<open>The block structure\<close>

text \<open>
  Claim C7. Outside a code block, a line that starts with four spaces flushes the open
  paragraph, closes the open list, and opens a code block whose first content line is
  the line without its first four bytes, escaped. The test \<open>strings.HasPrefix\<close> also
  accepts lines with more than four leading spaces; the lines with exactly four are
  among them. The input \<open>hello\<close>, newline, four spaces, \<open>world\<close>, newline gives the
  paragraph \<open>hello\<close> followed by a code block with the line \<open>world\<close>.
\<close>

theorem code_block_opens:
  "(HasPrefix line ''    '' \<and> \<not> inCodeBlock st \<longrightarrow>
      inCodeBlock (renderLine st line) \<and> \<not> inList (renderLine st line) \<and>
      paragraphBuf (renderLine st line) = [] \<and>
      sb (renderLine st line) =
        sb st
        @ (if paragraphBuf st \<noteq> []
           then ''<p>'' @ HTMLEscapeString (Join (paragraphBuf st) '' '') @ ''</p>\<newline>''
           else [])
        @ (if inList st then ''</ul>\<newline>'' else [])
        @ ''<pre><code>'' @ HTMLEscapeString (drop 4 line) @ ''\<newline>'') \<and>
   renderContent ''hello\<newline>    world\<newline>''
     = Some ''<p>hello</p>\<newline><pre><code>world\<newline></code></pre>\<newline>''"
proof (intro conjI impI)
  assume a: "HasPrefix line ''    '' \<and> \<not> inCodeBlock st"
  then have tp: "TrimPrefix line ''    '' = drop 4 line" by (simp add: TrimPrefix_def eval_nat_numeral)
  show "inCodeBlock (renderLine st line)"
    using a by (simp add: renderLine_def Let_def WriteString_def)
  show "\<not> inList (renderLine st line)"
    using a by (simp add: renderLine_def Let_def WriteString_def closeList_def)
  show "paragraphBuf (renderLine st line) = []"
    using a by (simp add: renderLine_def Let_def WriteString_def closeList_def flushParagraph_def)
  show "sb (renderLine st line) =
        sb st
        @ (if paragraphBuf st \<noteq> []
           then ''<p>'' @ HTMLEscapeString (Join (paragraphBuf st) '' '') @ ''</p>\<newline>''
           else [])
        @ (if inList st then ''</ul>\<newline>'' else [])
        @ ''<pre><code>'' @ HTMLEscapeString (drop 4 line) @ ''\<newline>''"
    using a tp
    by (simp add: renderLine_def Let_def WriteString_def closeList_def flushParagraph_def)
next
  show "renderContent ''hello\<newline>    world\<newline>''
     = Some ''<p>hello</p>\<newline><pre><code>world\<newline></code></pre>\<newline>''"
    by code_simp
qed

theorem code_block_opens_witness:
  "HasPrefix ''    world'' ''    '' \<and>
   \<not> inCodeBlock \<lparr>sb = ''<ul>\<newline><li>x</li>\<newline>'', inCodeBlock = False, inList = True,
                   paragraphBuf = [''hello'']\<rparr> \<and>
   sb (renderLine \<lparr>sb = ''<ul>\<newline><li>x</li>\<newline>'', inCodeBlock = False, inList = True,
                   paragraphBuf = [''hello'']\<rparr> ''    world'')
     = ''<ul>\<newline><li>x</li>\<newline><p>hello</p>\<newline></ul>\<newline><pre><code>world\<newline>''"
proof -
  let ?st = "\<lparr>sb = ''<ul>\<newline><li>x</li>\<newline>'', inCodeBlock = False, inList = True,
               paragraphBuf = [''hello'']\<rparr>"
  have h: "HasPrefix ''    world'' ''    '' \<and> \<not> inCodeBlock ?st" by (simp add: HasPrefix_def)
  have e: "HTMLEscapeString ''hello'' = ''hello''" "HTMLEscapeString ''world'' = ''world''"
    by code_simp+
  from code_block_opens [of "''    world''" ?st] h
  have "sb (renderLine ?st ''    world'') =
        sb ?st
        @ (if paragraphBuf ?st \<noteq> []
           then ''<p>'' @ HTMLEscapeString (Join (paragraphBuf ?st) '' '') @ ''</p>\<newline>''
           else [])
        @ (if inList ?st then ''</ul>\<newline>'' else [])
        @ ''<pre><code>'' @ HTMLEscapeString (drop 4 ''    world'') @ ''\<newline>''"
    by blast
  then have "sb (renderLine ?st ''    world'')
     = ''<ul>\<newline><li>x</li>\<newline><p>hello</p>\<newline></ul>\<newline><pre><code>world\<newline>''"
    by (simp add: e)
  with h show ?thesis by blast
qed

text \<open>
  Claim C6 at three inputs. With a blank line between the list and the text, the list is
  closed before the paragraph starts (third equation; the renderer writes a newline
  after \<open><ul>\<close> and after every closing tag). Without the blank line the branch that
  appends the text line to \<open>paragraph\<close> leaves \<open>inList\<close> set: the paragraph is written
  inside the list (first equation), and a later item extends the same list (second
  equation).
\<close>

theorem list_left_open_by_text:
  "renderContent ''- one\<newline>After.\<newline>''
     = Some ''<ul>\<newline><li>one</li>\<newline><p>After.</p>\<newline></ul>\<newline>'' \<and>
   renderContent ''- one\<newline>After.\<newline>- two''
     = Some ''<ul>\<newline><li>one</li>\<newline><p>After.</p>\<newline><li>two</li>\<newline></ul>\<newline>'' \<and>
   renderContent ''- one\<newline>- two\<newline>\<newline>After.\<newline>''
     = Some ''<ul>\<newline><li>one</li>\<newline><li>two</li>\<newline></ul>\<newline><p>After.</p>\<newline>''"
  by (intro conjI; code_simp)

section \<open>Code blocks and the inline pass\<close>

subsection \<open>A substring without delimiters survives the inline pass\<close>

lemma Index_Some_occurs: "Index s w = Some i \<Longrightarrow> \<exists>x y. s = x @ w @ y"
proof (induction s arbitrary: i)
  case Nil
  then show ?case by (simp split: if_splits)
next
  case (Cons c cs)
  show ?case
  proof (cases "HasPrefix (c # cs) w")
    case True
    then have "c # cs = [] @ w @ drop (length w) (c # cs)"
      by (metis HasPrefix_def append_Nil append_take_drop_id)
    then show ?thesis by blast
  next
    case False
    with Cons.prems obtain k where "Index cs w = Some k" by auto
    from Cons.IH [OF this] obtain x y where "cs = x @ w @ y" by blast
    then have "c # cs = (c # x) @ w @ y" by simp
    then show ?thesis by blast
  qed
qed

lemma occurs_Index: "Index (x @ w @ y) w \<noteq> None"
proof (induction x)
  case Nil
  show ?case
  proof (cases "w @ y")
    case Nil
    then show ?thesis by simp
  next
    case (Cons c cs)
    have "HasPrefix (w @ y) w" by (simp add: HasPrefix_def)
    with Cons show ?thesis by simp
  qed
next
  case (Cons c x)
  then show ?case by auto
qed

lemma Contains_iff: "Contains s w \<longleftrightarrow> occursIn w s"
proof
  assume "Contains s w"
  then obtain i where "Index s w = Some i" unfolding Contains_def by blast
  from Index_Some_occurs [OF this] show "occursIn w s" unfolding occursIn_def .
next
  assume "occursIn w s"
  then obtain x y where "s = x @ w @ y" unfolding occursIn_def by blast
  then show "Contains s w" unfolding Contains_def using occurs_Index [of x w y] by simp
qed

lemma occursIn_Nil: "occursIn [] s"
  unfolding occursIn_def by (rule exI [of _ "[]"], rule exI [of _ s]) simp

lemma occursIn_context: "occursIn w s \<Longrightarrow> occursIn w (a @ s @ b)"
proof -
  assume "occursIn w s"
  then obtain x y where "s = x @ w @ y" unfolding occursIn_def by blast
  then have "a @ s @ b = (a @ x) @ w @ (y @ b)" by simp
  then show ?thesis unfolding occursIn_def by blast
qed

lemma occursIn_left: "occursIn w s \<Longrightarrow> occursIn w (s @ b)"
  using occursIn_context [of w s "[]" b] by simp

lemma occursIn_right: "occursIn w s \<Longrightarrow> occursIn w (a @ s)"
  using occursIn_context [of w s a "[]"] by simp

lemma occursIn_split:
  assumes "d \<notin> set w" and "occursIn w (p @ d # t)"
  shows "occursIn w p \<or> occursIn w t"
proof -
  from assms(2) obtain x y where eq: "x @ (w @ y) = p @ (d # t)"
    unfolding occursIn_def by auto
  then consider u where "x = p @ u" "u @ w @ y = d # t"
    | u where "x @ u = p" "w @ y = u @ d # t"
    by (auto simp: append_eq_append_conv2)
  then show ?thesis
  proof cases
    case 1
    show ?thesis
    proof (cases u)
      case Nil
      with 1(2) have "w @ y = d # t" by simp
      with assms(1) have "w = []" by (cases w) auto
      then show ?thesis by (simp add: occursIn_Nil)
    next
      case (Cons a u')
      with 1(2) have "t = u' @ w @ y" by simp
      then show ?thesis unfolding occursIn_def by blast
    qed
  next
    case 2
    from 2(2) consider v where "w = u @ v" "v @ y = d # t"
      | v where "w @ v = u" "y = v @ d # t"
      by (auto simp: append_eq_append_conv2)
    then show ?thesis
    proof cases
      case 1
      show ?thesis
      proof (cases v)
        case Nil
        with 1(1) 2(1) have "p = x @ w @ []" by simp
        then show ?thesis unfolding occursIn_def by blast
      next
        case (Cons a v')
        with 1 have "d \<in> set w" by auto
        with assms(1) show ?thesis by simp
      qed
    next
      case 2
      with \<open>x @ u = p\<close> have "p = x @ w @ v" by simp
      then show ?thesis unfolding occursIn_def by blast
    qed
  qed
qed

lemma occursIn_Cons_split:
  assumes "d \<notin> set w" and "occursIn w (d # t)"
  shows "w = [] \<or> occursIn w t"
proof -
  from assms(2) have "occursIn w ([] @ d # t)" by simp
  from occursIn_split [OF assms(1) this] have "occursIn w [] \<or> occursIn w t" .
  moreover have "occursIn w [] \<Longrightarrow> w = []" by (simp add: occursIn_def)
  ultimately show ?thesis by blast
qed

lemma occursIn_pair:
  assumes "d \<notin> set w"
    and "occursIn w (p @ d # m @ d # r)"
  shows "occursIn w p \<or> occursIn w m \<or> occursIn w r"
proof -
  from occursIn_split [OF assms] have "occursIn w p \<or> occursIn w (m @ d # r)" .
  moreover have "occursIn w (m @ d # r) \<Longrightarrow> occursIn w m \<or> occursIn w r"
    using assms(1) by (rule occursIn_split)
  ultimately show ?thesis by blast
qed

lemma occursIn_three:
  assumes "occursIn w p \<or> occursIn w m \<or> occursIn w r"
  shows "occursIn w (p @ t1 @ m @ t2 @ r)"
proof -
  have "occursIn w p \<Longrightarrow> ?thesis" by (rule occursIn_left)
  moreover have "occursIn w m \<Longrightarrow> ?thesis"
    using occursIn_context [of w m "p @ t1" "t2 @ r"] by simp
  moreover have "occursIn w r \<Longrightarrow> ?thesis"
    using occursIn_right [of w r "p @ t1 @ m @ t2"] by simp
  ultimately show ?thesis using assms by blast
qed

lemma occursIn_boldStep:
  assumes "boldStep s = Some s'" and "CHR ''*'' \<notin> set w" and "occursIn w s"
  shows "occursIn w s'"
proof -
  from boldStep_Some [OF assms(1)] obtain p m r where
    s: "s = p @ ''**'' @ m @ ''**'' @ r"
    and s': "s' = p @ ''<strong>'' @ m @ ''</strong>'' @ r" by blast
  from assms(3) have "occursIn w (p @ CHR ''*'' # (CHR ''*'' # m @ ''*'') @ CHR ''*'' # r)"
    by (simp add: s)
  from occursIn_pair [OF assms(2) this]
  have "occursIn w p \<or> occursIn w (CHR ''*'' # m @ ''*'') \<or> occursIn w r" .
  moreover have "occursIn w m" if a: "occursIn w (CHR ''*'' # m @ ''*'')"
  proof -
    from occursIn_Cons_split [OF assms(2) a] have "w = [] \<or> occursIn w (m @ CHR ''*'' # [])"
      by simp
    then have "w = [] \<or> occursIn w m \<or> occursIn w []"
      using occursIn_split [OF assms(2)] by blast
    moreover have "occursIn w [] \<Longrightarrow> w = []" by (simp add: occursIn_def)
    moreover have "w = [] \<Longrightarrow> occursIn w m" by (simp add: occursIn_Nil)
    ultimately show ?thesis by blast
  qed
  ultimately have "occursIn w p \<or> occursIn w m \<or> occursIn w r" by blast
  then show ?thesis unfolding s' by (rule occursIn_three)
qed

lemma occursIn_codeStep:
  assumes "codeStep s = Some s'" and "CHR ''`'' \<notin> set w" and "occursIn w s"
  shows "occursIn w s'"
proof -
  from codeStep_Some [OF assms(1)] obtain p m r where
    s: "s = p @ ''`'' @ m @ ''`'' @ r"
    and s': "s' = p @ ''<code>'' @ m @ ''</code>'' @ r" by blast
  from assms(3) have "occursIn w (p @ CHR ''`'' # m @ CHR ''`'' # r)" by (simp add: s)
  from occursIn_pair [OF assms(2) this] show ?thesis
    unfolding s' by (rule occursIn_three)
qed

lemma occursIn_boldLoop:
  "CHR ''*'' \<notin> set w \<Longrightarrow> occursIn w s \<Longrightarrow> boldLoop s = Some r \<Longrightarrow> occursIn w r"
proof (induction "countBold s" arbitrary: s rule: less_induct)
  case less
  show ?case
  proof (cases "boldStep s")
    case None
    with less.prems show ?thesis by (simp add: boldLoop_break)
  next
    case (Some s')
    then have lt: "countBold s' < countBold s" using boldStep_count [OF Some] by simp
    have "occursIn w s'" using Some less.prems(1,2) by (rule occursIn_boldStep)
    moreover have "boldLoop s' = Some r" using less.prems(3) Some by (simp add: boldLoop_continue)
    ultimately show ?thesis using less.hyps [OF lt less.prems(1)] by blast
  qed
qed

lemma occursIn_codeLoop:
  "CHR ''`'' \<notin> set w \<Longrightarrow> occursIn w s \<Longrightarrow> codeLoop s = Some r \<Longrightarrow> occursIn w r"
proof (induction "countTick s" arbitrary: s rule: less_induct)
  case less
  show ?case
  proof (cases "codeStep s")
    case None
    with less.prems show ?thesis by (simp add: codeLoop_break)
  next
    case (Some s')
    then have lt: "countTick s' < countTick s" using codeStep_count [OF Some] by simp
    have "occursIn w s'" using Some less.prems(1,2) by (rule occursIn_codeStep)
    moreover have "codeLoop s' = Some r" using less.prems(3) Some by (simp add: codeLoop_continue)
    ultimately show ?thesis using less.hyps [OF lt less.prems(1)] by blast
  qed
qed

lemma occursIn_processInlineFormatting:
  assumes "CHR ''*'' \<notin> set w" and "CHR ''`'' \<notin> set w" and "occursIn w s"
  shows "\<exists>r. processInlineFormatting s = Some r \<and> occursIn w r"
proof -
  from processInlineFormatting_total obtain r where r: "processInlineFormatting s = Some r"
    by blast
  then obtain b where b: "boldLoop s = Some b" and c: "codeLoop b = Some r"
    by (auto simp: processInlineFormatting_def split: option.splits)
  from assms(1,3) b have "occursIn w b" by (rule occursIn_boldLoop)
  with assms(2) have "occursIn w r" using c by (rule occursIn_codeLoop)
  with r show ?thesis by blast
qed


lemma escape_delims:
  assumes "d = CHR ''*'' \<or> d = CHR ''`''"
  shows "d \<in> set (HTMLEscapeString s) \<longleftrightarrow> d \<in> set s"
proof -
  have "\<And>c. d \<in> set (escapeByte c) \<longleftrightarrow> d = c"
    using assms by (auto simp: escapeByte_def)
  then show ?thesis by (induction s) (auto simp: HTMLEscapeString_def)
qed


subsection \<open>Every code line is written escaped\<close>

lemma code_line_in_blocks:
  assumes "l \<in> set (SplitLines content)" and "HasPrefix l ''    ''"
  shows "occursIn (HTMLEscapeString (drop 4 l) @ ''\<newline>'') (renderBlocks content)"
proof -
  from assms(1) obtain pre post where sp: "SplitLines content = pre @ l # post"
    by (meson split_list)
  define st where "st = foldl renderLine initialState pre"
  from code_line_written [OF assms(2)] obtain z1 where
    1: "sb (renderLine st l) = sb st @ z1 @ HTMLEscapeString (drop 4 l) @ ''\<newline>''" by blast
  from foldl_grows obtain z2 where
    2: "sb (foldl renderLine (renderLine st l) post) = sb (renderLine st l) @ z2" by blast
  from renderBlocks_grows obtain z3 where
    3: "renderBlocks content = sb (foldl renderLine initialState (SplitLines content)) @ z3"
    by blast
  have "renderBlocks content
          = (sb st @ z1) @ (HTMLEscapeString (drop 4 l) @ ''\<newline>'') @ (z2 @ z3)"
    using 1 2 3 by (simp add: sp st_def)
  then show ?thesis unfolding occursIn_def by blast
qed

lemma Contains_bold: "Contains s ''**'' \<longleftrightarrow> countBold s \<noteq> 0"
  by (simp add: Contains_def Index_bold_None)

lemma Contains_tick: "Contains s ''`'' \<longleftrightarrow> CHR ''`'' \<in> set s"
proof -
  have "Contains s ''`'' \<longleftrightarrow> countTick s \<noteq> 0" by (simp add: Contains_def Index_tick_None)
  also have "\<dots> \<longleftrightarrow> CHR ''`'' \<in> set s"
    by (auto simp: countTick_def filter_empty_conv)
  finally show ?thesis .
qed

lemma countBold_drop4:
  assumes "HasPrefix l ''    ''"
  shows "countBold (drop 4 l) = countBold l"
proof -
  from assms have t: "take 4 l = ''    ''" by (simp add: HasPrefix_def eval_nat_numeral)
  have "countBold (''    '' @ drop 4 l) = countBold (drop 4 l)" by (rule countBold_append) simp
  then show ?thesis unfolding t [symmetric] by (simp only: append_take_drop_id)
qed

text \<open>
  Claim C2, as the code has it. Inside a code block, a line with the four-space prefix
  adds to the output exactly the escaped rest of the line and a newline: the prefix is
  removed once and nothing else is trimmed or interpreted. So the block output contains
  every code line escaped verbatim. The inline pass then runs over the whole string,
  code blocks included: a code line that holds no \<open>**\<close> and no backtick (it may hold
  single asterisks) is still in the final output as it was written, whatever the rest of
  the document.
\<close>

theorem code_line_verbatim:
  "(HasPrefix l ''    '' \<and> inCodeBlock st \<longrightarrow>
      renderLine st l = st\<lparr>sb := sb st @ HTMLEscapeString (drop 4 l) @ ''\<newline>''\<rparr>) \<and>
   (l \<in> set (SplitLines content) \<and> HasPrefix l ''    '' \<longrightarrow>
      Contains (renderBlocks content) (HTMLEscapeString (drop 4 l) @ ''\<newline>'')) \<and>
   (l \<in> set (SplitLines content) \<and> HasPrefix l ''    '' \<and>
    \<not> Contains l ''**'' \<and> \<not> Contains l ''`'' \<longrightarrow>
      (\<exists>h. renderContent content = Some h \<and>
           Contains h (HTMLEscapeString (drop 4 l) @ ''\<newline>'')))"
proof (intro conjI impI)
  assume a: "HasPrefix l ''    '' \<and> inCodeBlock st"
  then have "enterCode st = st" by (simp add: enterCode_def)
  with a show "renderLine st l = st\<lparr>sb := sb st @ HTMLEscapeString (drop 4 l) @ ''\<newline>''\<rparr>"
    by (simp add: renderLine_code WriteString_def)
next
  assume "l \<in> set (SplitLines content) \<and> HasPrefix l ''    ''"
  then show "Contains (renderBlocks content) (HTMLEscapeString (drop 4 l) @ ''\<newline>'')"
    using code_line_in_blocks by (simp add: Contains_iff)
next
  assume a: "l \<in> set (SplitLines content) \<and> HasPrefix l ''    '' \<and>
    \<not> Contains l ''**'' \<and> \<not> Contains l ''`''"
  let ?w = "HTMLEscapeString (drop 4 l) @ ''\<newline>''"
  from a have "countBold (drop 4 l) = 0" by (simp add: Contains_bold countBold_drop4)
  then have "countBold (HTMLEscapeString (drop 4 l)) = 0" by (simp add: countBold_escape)
  then have "countBold ?w = 0"
    by (simp add: countBold_add_plain)
  moreover have "endsPlain ?w" by (simp add: endsPlain_def)
  ultimately have bw: "boldFree ?w" by (simp only: boldFree_iff)
  from a have "CHR ''`'' \<notin> set (drop 4 l)" by (auto simp: Contains_tick dest: in_set_dropD)
  then have tw: "CHR ''`'' \<notin> set ?w" by (simp add: escape_delims)
  from a code_line_context obtain x y where
    r: "renderBlocks content = x @ ?w @ y" and x: "endsPlain x" by blast
  from boldLoop_keeps [OF x bw, of y] obtain x' y' where
    b: "boldLoop (x @ ?w @ y) = Some (x' @ ?w @ y')" by blast
  have o: "occursIn ?w (x' @ ?w @ y')" unfolding occursIn_def by blast
  from codeLoop_total obtain h where h: "codeLoop (x' @ ?w @ y') = Some h" by blast
  from occursIn_codeLoop [OF tw o h] have "occursIn ?w h" .
  moreover have "renderContent content = Some h"
    using b h by (simp only: renderContent_def r processInlineFormatting_def option.case)
  ultimately show "\<exists>h. renderContent content = Some h \<and> Contains h ?w"
    by (simp add: Contains_iff)
qed

theorem code_line_verbatim_witness:
  "''    x = a * b'' \<in> set (SplitLines ''a ** b\<newline>    x = a * b\<newline>c ** d'') \<and>
   HasPrefix ''    x = a * b'' ''    '' \<and>
   \<not> Contains ''    x = a * b'' ''**'' \<and> \<not> Contains ''    x = a * b'' ''`'' \<and>
   renderContent ''a ** b\<newline>    x = a * b\<newline>c ** d''
     = Some ''<p>a <strong> b</p>\<newline><pre><code>x = a * b\<newline></code></pre>\<newline><p>c </strong> d</p>\<newline>'' \<and>
   Contains ''<p>a <strong> b</p>\<newline><pre><code>x = a * b\<newline></code></pre>\<newline><p>c </strong> d</p>\<newline>''
            ''x = a * b\<newline>''"
proof -
  have 1: "''    x = a * b'' \<in> set (SplitLines ''a ** b\<newline>    x = a * b\<newline>c ** d'')"
    by code_simp
  have 2: "HasPrefix ''    x = a * b'' ''    ''" by code_simp
  have 3: "\<not> Contains ''    x = a * b'' ''**'' \<and> \<not> Contains ''    x = a * b'' ''`''"
    by code_simp
  have e: "HTMLEscapeString (drop 4 ''    x = a * b'') @ ''\<newline>'' = ''x = a * b\<newline>''"
    by code_simp
  have r: "renderContent ''a ** b\<newline>    x = a * b\<newline>c ** d''
     = Some ''<p>a <strong> b</p>\<newline><pre><code>x = a * b\<newline></code></pre>\<newline><p>c </strong> d</p>\<newline>''"
    by code_simp
  from code_line_verbatim [of "''    x = a * b''" _ "''a ** b\<newline>    x = a * b\<newline>c ** d''"]
    1 2 3
  have "\<exists>h. renderContent ''a ** b\<newline>    x = a * b\<newline>c ** d'' = Some h \<and>
        Contains h (HTMLEscapeString (drop 4 ''    x = a * b'') @ ''\<newline>'')" by blast
  then have "Contains ''<p>a <strong> b</p>\<newline><pre><code>x = a * b\<newline></code></pre>\<newline><p>c </strong> d</p>\<newline>''
            ''x = a * b\<newline>''"
    unfolding e r by simp
  with 1 2 3 r show ?thesis by blast
qed

text \<open>
  A delimiter pair inside a code block is rewritten like any other: the escaped line
  \<open>a **b** `c`\<close> is not in the output.
\<close>

theorem code_block_formatted_counterexample:
  "renderContent ''    a **b** `c`''
     = Some ''<pre><code>a <strong>b</strong> <code>c</code>\<newline></code></pre>\<newline>'' \<and>
   \<not> Contains ''<pre><code>a <strong>b</strong> <code>c</code>\<newline></code></pre>\<newline>''
                (HTMLEscapeString ''a **b** `c`'')"
  by (intro conjI; code_simp)

section \<open>Inline formatting and the blocks\<close>




end
